theory Spec2Isabelle
  imports Main
begin

section \<open>The Python API surface of \<open>hydro\<close> (src/hydro_cli/hydro/__init__.py)\<close>

text \<open>
  The module is a thin object layer over the native extension \<open>hydro_cli_rust\<close>.
  Every class stores one opaque handle in its field \<open>underlying\<close>, and every method
  forwards to a function of the extension. The extension mutates engine state that
  Python cannot see, so each of its functions is a state transformer that either
  raises (\<open>Inl\<close>) or returns a value (\<open>Inr\<close>).
\<close>

datatype provision_error = Transient | Fatal

datatype error =
    DeclarationError
  | AttributeError
  | ProvisionError provision_error
  | BuildError
  | PlacementError
  | ProcessCrash

type_synonym ('a, 'st) call = "'st \<Rightarrow> (error + 'a) \<times> 'st"

text \<open>
  The extension module itself is not part of the Python sources. Its functions are
  taken as a parameter: a record with one field for each function the Python layer
  calls, over an engine state \<open>'st\<close> and handle types \<open>'d\<close> (deployment), \<open>'h\<close> (host),
  \<open>'s\<close> (service) and \<open>'p\<close> (the value a provisioning call returns).
\<close>

record ('st, 'd, 'h, 's, 'p) hydro_cli_rust =
  create_Deployment :: "('d, 'st) call"
  create_LocalhostHost :: "'d \<Rightarrow> ('h, 'st) call"
  create_HydroflowCrate :: "string \<Rightarrow> 'h \<Rightarrow> 'd \<Rightarrow> ('s, 'st) call"
  create_connection :: "'s \<Rightarrow> string \<Rightarrow> 's \<Rightarrow> string \<Rightarrow> (unit, 'st) call"
  deployment_deploy :: "'d \<Rightarrow> (unit, 'st) call"
  host_provision :: "'h \<Rightarrow> ('p, 'st) call"
  service_deploy :: "'s \<Rightarrow> (unit, 'st) call"

text \<open>
  \<open>returning f m\<close> is a Python expression \<open>f(m)\<close> whose argument \<open>m\<close> is a call
  into the extension: an exception of \<open>m\<close> propagates, a value is wrapped by \<open>f\<close>.
\<close>

definition returning :: "('a \<Rightarrow> 'b) \<Rightarrow> (error + 'a) \<times> 'st \<Rightarrow> (error + 'b) \<times> 'st" where
  "returning f m = (case m of (Inl e, st) \<Rightarrow> (Inl e, st) | (Inr v, st) \<Rightarrow> (Inr (f v), st))"

subsection \<open>Classes\<close>

datatype 'd Deployment = Deployment (deployment_underlying: 'd)

datatype 'h Host = Host (host_underlying: 'h)

datatype 's Service = Service (service_underlying: 's)

datatype 's HydroflowPort = HydroflowPort (port_underlying: 's) (port_name: string)

datatype 's HydroflowCratePorts = HydroflowCratePorts (ports_underlying: 's)

text \<open>
  \<open>Localhost\<close> extends \<open>Host\<close> and \<open>HydroflowCrate\<close> extends \<open>Service\<close>; neither adds a
  field, so an instance is the instance of the base class its \<open>__init__\<close> builds.
\<close>

type_synonym 'h Localhost = "'h Host"

type_synonym 's HydroflowCrate = "'s Service"

subsection \<open>Constructors and methods\<close>

definition Deployment_init :: "('st, 'd, 'h, 's, 'p) hydro_cli_rust \<Rightarrow> ('d Deployment, 'st) call" where
  "Deployment_init R st = returning Deployment (create_Deployment R st)"

definition Host_init :: "'h \<Rightarrow> 'h Host" where
  "Host_init underlying = Host underlying"

definition Host_provision :: "('st, 'd, 'h, 's, 'p) hydro_cli_rust \<Rightarrow> 'h Host \<Rightarrow> ('p, 'st) call" where
  "Host_provision R self st = host_provision R (host_underlying self) st"

definition Localhost_init ::
  "('st, 'd, 'h, 's, 'p) hydro_cli_rust \<Rightarrow> 'd Deployment \<Rightarrow> ('h Localhost, 'st) call" where
  "Localhost_init R deployment st =
     returning Host_init (create_LocalhostHost R (deployment_underlying deployment) st)"

definition Service_init :: "'s \<Rightarrow> 's Service" where
  "Service_init underlying = Service underlying"

definition Service_deploy :: "('st, 'd, 'h, 's, 'p) hydro_cli_rust \<Rightarrow> 's Service \<Rightarrow> (unit, 'st) call" where
  "Service_deploy R self st = service_deploy R (service_underlying self) st"

definition HydroflowCrate_init ::
  "('st, 'd, 'h, 's, 'p) hydro_cli_rust \<Rightarrow> string \<Rightarrow> 'h Host \<Rightarrow> 'd Deployment
     \<Rightarrow> ('s HydroflowCrate, 'st) call" where
  "HydroflowCrate_init R src on deployment st =
     returning Service_init
       (create_HydroflowCrate R src (host_underlying on) (deployment_underlying deployment) st)"

definition Deployment_Localhost ::
  "('st, 'd, 'h, 's, 'p) hydro_cli_rust \<Rightarrow> 'd Deployment \<Rightarrow> ('h Localhost, 'st) call" where
  "Deployment_Localhost R self = Localhost_init R self"

definition Deployment_HydroflowCrate ::
  "('st, 'd, 'h, 's, 'p) hydro_cli_rust \<Rightarrow> 'd Deployment \<Rightarrow> string \<Rightarrow> 'h Host
     \<Rightarrow> ('s HydroflowCrate, 'st) call" where
  "Deployment_HydroflowCrate R self src on = HydroflowCrate_init R src on self"

definition Deployment_deploy ::
  "('st, 'd, 'h, 's, 'p) hydro_cli_rust \<Rightarrow> 'd Deployment \<Rightarrow> (unit, 'st) call" where
  "Deployment_deploy R self st = deployment_deploy R (deployment_underlying self) st"

text \<open>
  \<open>send_to\<close> has no \<open>return\<close>: it yields \<open>None\<close> whatever the extension returned, and
  an exception of the extension propagates.
\<close>

definition HydroflowPort_send_to ::
  "('st, 'd, 'h, 's, 'p) hydro_cli_rust \<Rightarrow> 's HydroflowPort \<Rightarrow> 's HydroflowPort \<Rightarrow> (unit, 'st) call" where
  "HydroflowPort_send_to R self other st =
     returning (\<lambda>_. ())
       (create_connection R (port_underlying self) (port_name self)
          (port_underlying other) (port_name other) st)"

subsection \<open>Attribute access on \<open>HydroflowCratePorts\<close>\<close>

text \<open>
  An instance has exactly one entry in its instance dictionary, written by
  \<open>__init__\<close>. \<open>object.__getattribute__\<close> is only ever called with the name
  \<open>underlying\<close>; a name missing from the dictionary raises \<open>AttributeError\<close>.
\<close>

definition instance_dict :: "'s HydroflowCratePorts \<Rightarrow> (string \<times> 's) list" where
  "instance_dict self = [(''underlying'', ports_underlying self)]"

definition object_getattribute :: "'s HydroflowCratePorts \<Rightarrow> string \<Rightarrow> error + 's" where
  "object_getattribute self name =
     (case map_of (instance_dict self) name of
        None \<Rightarrow> Inl AttributeError
      | Some v \<Rightarrow> Inr v)"

text \<open>
  What an attribute access can evaluate to: the stored handle, or a port object.
\<close>

datatype 's attribute = Underlying 's | Port "'s HydroflowPort"

text \<open>
  \<open>__getattribute__\<close> intercepts every attribute access. In its second branch the
  expression \<open>self.underlying\<close> enters \<open>__getattribute__\<close> again with the name
  \<open>underlying\<close>, which takes the first branch; that inner access is the call of
  \<open>object_getattribute\<close> below.
\<close>

definition HydroflowCratePorts_getattribute ::
  "'s HydroflowCratePorts \<Rightarrow> string \<Rightarrow> error + 's attribute" where
  "HydroflowCratePorts_getattribute self name =
     (if name = ''underlying'' then
        (case object_getattribute self name of
           Inl e \<Rightarrow> Inl e
         | Inr v \<Rightarrow> Inr (Underlying v))
      else
        (case object_getattribute self ''underlying'' of
           Inl e \<Rightarrow> Inl e
         | Inr u \<Rightarrow> Inr (Port (HydroflowPort u name))))"

definition HydroflowCrate_ports :: "'s HydroflowCrate \<Rightarrow> 's HydroflowCratePorts" where
  "HydroflowCrate_ports self = HydroflowCratePorts (service_underlying self)"

text \<open>\<open>s.ports.n\<close>: the property, then the attribute access.\<close>

definition port_access :: "'s HydroflowCrate \<Rightarrow> string \<Rightarrow> error + 's attribute" where
  "port_access s n = HydroflowCratePorts_getattribute (HydroflowCrate_ports s) n"

section \<open>The orchestration engine behind the extension\<close>

text \<open>
  The engine that \<open>hydro_cli_rust\<close> exposes is native code outside the Python
  sources. The definitions of this section follow the specification's description of
  it (data model, wiring protocol, lifecycle, orchestration). The external
  collaborators (provisioning, build, placement, launch) are capabilities the engine
  is given; the concurrency of independent remote calls is modelled by one sequential
  order of them.
\<close>

subsection \<open>Data model\<close>

text \<open>Modelled from the spec: the opaque ProvisionedHandle that the provisioning
  capability returns; the engine's handle type is missing.\<close>

type_synonym handle = nat

text \<open>Modelled from the spec: the identity of a Port, the pair of a Service id and a
  port name; the engine's Port type is missing.\<close>

type_synonym port_ref = "nat \<times> string"

text \<open>Modelled from the spec: the network locality class of a Host (local,
  private network with an id, public); the engine's Host type is missing.\<close>

datatype locality = Local | PrivateNetwork nat | Public

text \<open>Modelled from the spec: the Host lifecycle declared, provisioned (with the
  handle the provisioning capability returned), released; the engine's Host type is
  missing.\<close>

datatype host_state = HostDeclared | HostProvisioned handle | HostReleased

text \<open>Modelled from the spec: a Host, with its network locality class and its lifecycle
  state; the resource spec is opaque to the engine and left out.\<close>

record host =
  host_locality :: locality
  host_state :: host_state

text \<open>Modelled from the spec: the Service states declared, artifact-ready, deployed,
  running, stopped, failed; the engine's Service type is missing.\<close>

datatype service_state =
  ServiceDeclared | ArtifactReady | ServiceDeployed | Running | Stopped | Failed

text \<open>Modelled from the spec: a Service, with its source reference, the Host it is
  bound to (a reference: the index of the Host) and its state.\<close>

record service =
  svc_src :: string
  svc_host :: nat
  svc_state :: service_state

text \<open>Modelled from the spec: a Connection is a directed edge from a source Port to a
  destination Port or to a demux, a mapping from a key to a destination Port (a
  dictionary: the keys are distinct); the engine's Connection type is missing.\<close>

datatype destination = Plain port_ref | Demux "(nat \<times> port_ref) list"

text \<open>Modelled from the spec: a Connection, with its source Port and its
  destination.\<close>

record connection =
  conn_source :: port_ref
  conn_destination :: destination

text \<open>Modelled from the spec: the Deployment state machine Empty, Declared,
  Provisioned, Deployed, Started, Stopped or PartiallyFailed, Torn-down; the engine's
  Deployment type is missing.\<close>

datatype phase =
  Empty | Declared | Provisioned | Deployed | Started | StoppedAll | PartiallyFailed | TornDown

text \<open>Modelled from the spec: the Network Resolver's classification of a pair of
  Hosts; the resolver is missing.\<close>

datatype reachability = SameHost | SamePrivateNetwork | CrossNetwork

text \<open>Modelled from the spec: an Endpoint is an address, a port number and a transport
  kind. The address is kept symbolic: the Host to reach, and the way it is reached from
  the peer, which decides both the address used and the transport.\<close>

record endpoint =
  ep_host :: nat
  ep_via :: reachability
  ep_port :: nat

text \<open>Modelled from the spec: a physical sub-connection produced at wiring time, with
  the logical source port, the demux key (none for a plain connection), the
  destination port and the resolved endpoint.\<close>

record physical =
  phys_source :: port_ref
  phys_key :: "nat option"
  phys_target :: port_ref
  phys_endpoint :: endpoint

text \<open>Modelled from the spec: what a mock execution capability records during
  \<open>start()\<close>: the launch of a service, the confirmation that it listens, or its
  crash.\<close>

datatype event = Launch nat | Listening nat | Crashed nat

text \<open>Modelled from the spec: the Deployment aggregate, owning its Hosts, Services and
  Connections (a Host or Service id is its index), the ports declared as merged, the
  lifecycle phase, the wiring table, the next free port number, and the calls made to
  the deprovisioning and execution capabilities.\<close>

record deployment_state =
  hosts :: "host list"
  services :: "service list"
  connections :: "connection list"
  merged_ports :: "port_ref list"
  phase :: phase
  wiring :: "physical list"
  next_port :: nat
  deprovisioned :: "handle list"
  events :: "event list"

text \<open>Modelled from the spec: the external capabilities of section 6. Provisioning
  answers for a Host and an attempt number with a handle or a transient or fatal error;
  \<open>max_attempts\<close> is the fixed attempt count of the retry policy; build, placement and
  launch succeed or fail. Deprovisioning has no error result.\<close>

record capabilities =
  provision_cap :: "nat \<Rightarrow> nat \<Rightarrow> provision_error + handle"
  max_attempts :: nat
  build_cap :: "string \<Rightarrow> bool"
  place_cap :: "nat \<Rightarrow> bool"
  launch_cap :: "nat \<Rightarrow> bool"

text \<open>Modelled from the spec: a new Deployment is Empty.\<close>

definition empty_deployment :: deployment_state where
  "empty_deployment =
     \<lparr>hosts = [], services = [], connections = [], merged_ports = [], phase = Empty,
      wiring = [], next_port = 0, deprovisioned = [], events = []\<rparr>"

text \<open>Modelled from the spec: hosts, services and connections are registered in the
  phases Empty and Declared only, before \<open>deploy()\<close>.\<close>

definition declaring :: "deployment_state \<Rightarrow> bool" where
  "declaring ds = (phase ds = Empty \<or> phase ds = Declared)"

subsection \<open>Declaration\<close>

text \<open>Modelled from the spec: register-host. The Host starts in the declared state;
  registering out of order is a usage error.\<close>

definition register_host :: "locality \<Rightarrow> deployment_state \<Rightarrow> (error + nat) \<times> deployment_state" where
  "register_host loc ds =
     (if \<not> declaring ds then (Inl DeclarationError, ds)
      else (Inr (length (hosts ds)),
            ds\<lparr>hosts := hosts ds @ [\<lparr>host_locality = loc, host_state = HostDeclared\<rparr>],
               phase := Declared\<rparr>))"

text \<open>Modelled from the spec: register-service(src, host). The Service is bound to one
  Host of the same Deployment and starts in the declared state.\<close>

definition register_service ::
  "string \<Rightarrow> nat \<Rightarrow> deployment_state \<Rightarrow> (error + nat) \<times> deployment_state" where
  "register_service src h ds =
     (if \<not> declaring ds \<or> \<not> h < length (hosts ds) then (Inl DeclarationError, ds)
      else (Inr (length (services ds)),
            ds\<lparr>services := services ds @ [\<lparr>svc_src = src, svc_host = h, svc_state = ServiceDeclared\<rparr>],
               phase := Declared\<rparr>))"

text \<open>Modelled from the spec: the destination Ports of a Connection.\<close>

definition targets :: "destination \<Rightarrow> port_ref list" where
  "targets d = (case d of Plain p \<Rightarrow> [p] | Demux kvs \<Rightarrow> map snd kvs)"

text \<open>Modelled from the spec: a dangling port reference: a Port of a Connection whose
  Service is not registered in the Deployment.\<close>

definition dangling :: "deployment_state \<Rightarrow> connection \<Rightarrow> bool" where
  "dangling ds c =
     (\<not> fst (conn_source c) < length (services ds)
      \<or> (\<exists>p \<in> set (targets (conn_destination c)). \<not> fst p < length (services ds)))"

text \<open>Modelled from the spec: a duplicate connection target: a destination Port that an
  earlier Connection already targets, unless the Port is declared as merged.\<close>

definition duplicate_target :: "deployment_state \<Rightarrow> connection \<Rightarrow> bool" where
  "duplicate_target ds c =
     (\<exists>p \<in> set (targets (conn_destination c)).
        p \<notin> set (merged_ports ds)
        \<and> (\<exists>c' \<in> set (connections ds). p \<in> set (targets (conn_destination c'))))"

text \<open>Modelled from the spec: a Port that is a demux source in one Connection and a
  plain sink target in another is a declaration error at graph-build time.\<close>

definition demux_conflict :: "deployment_state \<Rightarrow> connection \<Rightarrow> bool" where
  "demux_conflict ds c =
     (case conn_destination c of
        Plain p \<Rightarrow>
          (\<exists>c' \<in> set (connections ds).
             conn_source c' = p \<and> (case conn_destination c' of Demux _ \<Rightarrow> True | Plain _ \<Rightarrow> False))
      | Demux _ \<Rightarrow>
          (\<exists>c' \<in> set (connections ds). conn_destination c' = Plain (conn_source c)))"

text \<open>Modelled from the spec: connect(sourcePort, destPort-or-demuxMap). Declaring after
  \<open>deploy()\<close>, a dangling port reference, a duplicate connection target and a demux
  conflict fail with \<open>DeclarationError\<close> and leave the graph as it is.\<close>

definition connect :: "connection \<Rightarrow> deployment_state \<Rightarrow> (error + unit) \<times> deployment_state" where
  "connect c ds =
     (if \<not> declaring ds then (Inl DeclarationError, ds)
      else if dangling ds c \<or> duplicate_target ds c \<or> demux_conflict ds c
        then (Inl DeclarationError, ds)
      else (Inr (), ds\<lparr>connections := connections ds @ [c], phase := Declared\<rparr>))"

subsection \<open>Host provisioning\<close>

text \<open>Modelled from the spec: the retry policy of provisioning. A transient error is
  retried up to the fixed attempt count, a fatal error ends the attempts at once.\<close>

fun provision_attempts ::
  "(nat \<Rightarrow> provision_error + handle) \<Rightarrow> nat \<Rightarrow> nat \<Rightarrow> provision_error + handle" where
  "provision_attempts p 0 k = Inl Transient"
| "provision_attempts p (Suc n) k =
     (case p k of
        Inr h \<Rightarrow> Inr h
      | Inl Fatal \<Rightarrow> Inl Fatal
      | Inl Transient \<Rightarrow> provision_attempts p n (Suc k))"

text \<open>Modelled from the spec: \<open>provision()\<close> of a Host. In the provisioned state it
  returns the cached handle; in the declared state it asks the provisioning capability
  and, on success, caches the handle; a released Host or an unknown one is a usage
  error.\<close>

definition provision_host ::
  "capabilities \<Rightarrow> nat \<Rightarrow> deployment_state \<Rightarrow> (error + handle) \<times> deployment_state" where
  "provision_host caps i ds =
     (if \<not> i < length (hosts ds) then (Inl DeclarationError, ds)
      else case host_state (hosts ds ! i) of
        HostProvisioned h \<Rightarrow> (Inr h, ds)
      | HostReleased \<Rightarrow> (Inl DeclarationError, ds)
      | HostDeclared \<Rightarrow>
          (case provision_attempts (provision_cap caps i) (max_attempts caps) 0 of
             Inl e \<Rightarrow> (Inl (ProvisionError e), ds)
           | Inr h \<Rightarrow>
               (Inr h, ds\<lparr>hosts := (hosts ds)[i := (hosts ds ! i)\<lparr>host_state := HostProvisioned h\<rparr>]\<rparr>)))"

text \<open>Modelled from the spec: \<open>deploy()\<close> provisions every Host; the first failure
  aborts.\<close>

fun provision_all ::
  "capabilities \<Rightarrow> nat list \<Rightarrow> deployment_state \<Rightarrow> (error + unit) \<times> deployment_state" where
  "provision_all caps [] ds = (Inr (), ds)"
| "provision_all caps (i # is) ds =
     (case provision_host caps i ds of
        (Inl e, ds') \<Rightarrow> (Inl e, ds')
      | (Inr _, ds') \<Rightarrow> provision_all caps is ds')"

subsection \<open>Wiring\<close>

text \<open>Modelled from the spec: the Host a Service is bound to, if the Service is
  registered.\<close>

definition service_host :: "deployment_state \<Rightarrow> nat \<Rightarrow> nat option" where
  "service_host ds s = (if s < length (services ds) then Some (svc_host (services ds ! s)) else None)"

text \<open>Modelled from the spec: the Network Resolver classifies two Hosts as same-host,
  same-private-network or cross-network, deterministically and symmetrically. Two
  local hosts are the same machine.\<close>

definition classify :: "locality \<Rightarrow> locality \<Rightarrow> reachability" where
  "classify a b =
     (case (a, b) of
        (Local, Local) \<Rightarrow> SameHost
      | (PrivateNetwork m, PrivateNetwork n) \<Rightarrow> (if m = n then SamePrivateNetwork else CrossNetwork)
      | _ \<Rightarrow> CrossNetwork)"

text \<open>Modelled from the spec: the resolver applied to two Hosts of a Deployment; a Host
  and itself are the same host.\<close>

definition resolve :: "deployment_state \<Rightarrow> nat \<Rightarrow> nat \<Rightarrow> reachability" where
  "resolve ds a b =
     (if a = b then SameHost
      else if a < length (hosts ds) \<and> b < length (hosts ds)
        then classify (host_locality (hosts ds ! a)) (host_locality (hosts ds ! b))
      else CrossNetwork)"

text \<open>Modelled from the spec: for one source Port and one destination Port the resolver
  produces the Endpoint of the destination's Host as seen from the source's Host; the
  destination is told to listen on the port number \<open>pn\<close>.\<close>

definition wire_one ::
  "deployment_state \<Rightarrow> port_ref \<Rightarrow> nat option \<Rightarrow> port_ref \<Rightarrow> nat \<Rightarrow> error + physical" where
  "wire_one ds src key dst pn =
     (case (service_host ds (fst src), service_host ds (fst dst)) of
        (Some a, Some b) \<Rightarrow>
          Inr \<lparr>phys_source = src, phys_key = key, phys_target = dst,
               phys_endpoint = \<lparr>ep_host = b, ep_via = resolve ds a b, ep_port = pn\<rparr>\<rparr>
      | _ \<Rightarrow> Inl DeclarationError)"

text \<open>Modelled from the spec: for a demux Connection the wiring is done once per mapping
  entry, all under the same source port, each with an endpoint of its own.\<close>

fun wire_demux ::
  "deployment_state \<Rightarrow> port_ref \<Rightarrow> (nat \<times> port_ref) list \<Rightarrow> nat \<Rightarrow> error + physical list" where
  "wire_demux ds src [] pn = Inr []"
| "wire_demux ds src ((k, dst) # kvs) pn =
     (case wire_one ds src (Some k) dst pn of
        Inl e \<Rightarrow> Inl e
      | Inr p \<Rightarrow>
          (case wire_demux ds src kvs (Suc pn) of
             Inl e \<Rightarrow> Inl e
           | Inr ps \<Rightarrow> Inr (p # ps)))"

text \<open>Modelled from the spec: wiring a Connection: one physical connection for a plain
  destination, one per mapping entry for a demux.\<close>

definition wire_connection :: "deployment_state \<Rightarrow> connection \<Rightarrow> nat \<Rightarrow> error + physical list" where
  "wire_connection ds c pn =
     (case conn_destination c of
        Plain dst \<Rightarrow>
          (case wire_one ds (conn_source c) None dst pn of
             Inl e \<Rightarrow> Inl e
           | Inr p \<Rightarrow> Inr [p])
      | Demux kvs \<Rightarrow> wire_demux ds (conn_source c) kvs pn)"

text \<open>Modelled from the spec: the Deployment walks the Connection set and wires each
  Connection.\<close>

fun wire_all :: "deployment_state \<Rightarrow> connection list \<Rightarrow> nat \<Rightarrow> error + physical list" where
  "wire_all ds [] pn = Inr []"
| "wire_all ds (c # cs) pn =
     (case wire_connection ds c pn of
        Inl e \<Rightarrow> Inl e
      | Inr ps \<Rightarrow>
          (case wire_all ds cs (pn + length ps) of
             Inl e \<Rightarrow> Inl e
           | Inr qs \<Rightarrow> Inr (ps @ qs)))"

text \<open>Modelled from the spec: the configuration injected into a source Service: for
  each of its source ports, the endpoint of every key (a key to endpoint mapping).\<close>

definition source_config :: "physical list \<Rightarrow> nat \<Rightarrow> (string \<times> nat option \<times> endpoint) list" where
  "source_config ps s =
     map (\<lambda>p. (snd (phys_source p), phys_key p, phys_endpoint p))
       (filter (\<lambda>p. fst (phys_source p) = s) ps)"

text \<open>Modelled from the spec: the configuration handed to a destination Service: the
  local port to listen on, for each of its destination ports.\<close>

definition listen_config :: "physical list \<Rightarrow> nat \<Rightarrow> (string \<times> nat) list" where
  "listen_config ps s =
     map (\<lambda>p. (snd (phys_target p), ep_port (phys_endpoint p)))
       (filter (\<lambda>p. fst (phys_target p) = s) ps)"

subsection \<open>Service deployment, teardown and \<open>deploy()\<close>\<close>

text \<open>Modelled from the spec: \<open>deploy()\<close> of a Service builds the artifact
  (artifact-ready), places it on the Host (deployed) and does not start the process. A
  build failure is a \<open>BuildError\<close>, a placement failure a \<open>PlacementError\<close>; a Service
  that is not in the declared state, or whose Host is not provisioned, is a usage
  error.\<close>

definition deploy_service ::
  "capabilities \<Rightarrow> nat \<Rightarrow> deployment_state \<Rightarrow> (error + unit) \<times> deployment_state" where
  "deploy_service caps s ds =
     (if \<not> s < length (services ds) then (Inl DeclarationError, ds)
      else
        let sv = services ds ! s in
        if svc_state sv \<noteq> ServiceDeclared then (Inl DeclarationError, ds)
        else if \<not> svc_host sv < length (hosts ds) then (Inl DeclarationError, ds)
        else case host_state (hosts ds ! svc_host sv) of
          HostProvisioned _ \<Rightarrow>
            (if \<not> build_cap caps (svc_src sv) then (Inl BuildError, ds)
             else if \<not> place_cap caps s
               then (Inl PlacementError,
                     ds\<lparr>services := (services ds)[s := sv\<lparr>svc_state := ArtifactReady\<rparr>]\<rparr>)
             else (Inr (), ds\<lparr>services := (services ds)[s := sv\<lparr>svc_state := ServiceDeployed\<rparr>]\<rparr>))
        | _ \<Rightarrow> (Inl DeclarationError, ds))"

text \<open>Modelled from the spec: \<open>deploy()\<close> deploys all Services; the first failure
  aborts.\<close>

fun deploy_services ::
  "capabilities \<Rightarrow> nat list \<Rightarrow> deployment_state \<Rightarrow> (error + unit) \<times> deployment_state" where
  "deploy_services caps [] ds = (Inr (), ds)"
| "deploy_services caps (s # ss) ds =
     (case deploy_service caps s ds of
        (Inl e, ds') \<Rightarrow> (Inl e, ds')
      | (Inr _, ds') \<Rightarrow> deploy_services caps ss ds')"

text \<open>Modelled from the spec: the handles of the Hosts that are provisioned.\<close>

fun provisioned_handles :: "host list \<Rightarrow> handle list" where
  "provisioned_handles [] = []"
| "provisioned_handles (h # hs) =
     (case host_state h of
        HostProvisioned x \<Rightarrow> x # provisioned_handles hs
      | _ \<Rightarrow> provisioned_handles hs)"

text \<open>Modelled from the spec: stopping a Service: a running Service becomes
  stopped.\<close>

definition stop_service :: "service \<Rightarrow> service" where
  "stop_service sv = (if svc_state sv = Running then sv\<lparr>svc_state := Stopped\<rparr> else sv)"

text \<open>Modelled from the spec: teardown stops the running Services, deprovisions every
  provisioned Host through the deprovisioning capability, and leaves every Host
  released and the Deployment torn down.\<close>

definition teardown :: "deployment_state \<Rightarrow> deployment_state" where
  "teardown ds =
     ds\<lparr>services := map stop_service (services ds),
        deprovisioned := deprovisioned ds @ provisioned_handles (hosts ds),
        hosts := map (\<lambda>h. h\<lparr>host_state := HostReleased\<rparr>) (hosts ds),
        phase := TornDown\<rparr>"

text \<open>Modelled from the spec: the steps of \<open>deploy()\<close>: provision all Hosts, resolve
  the Connection graph, deploy all Services; any failure aborts. Calling it out of
  order is a usage error.\<close>

definition deploy_steps :: "capabilities \<Rightarrow> deployment_state \<Rightarrow> (error + unit) \<times> deployment_state" where
  "deploy_steps caps ds =
     (if \<not> declaring ds then (Inl DeclarationError, ds)
      else case provision_all caps [0..<length (hosts ds)] ds of
        (Inl e, ds1) \<Rightarrow> (Inl e, ds1)
      | (Inr _, ds1) \<Rightarrow>
          (let ds2 = ds1\<lparr>phase := Provisioned\<rparr> in
           case wire_all ds2 (connections ds2) (next_port ds2) of
             Inl e \<Rightarrow> (Inl e, ds2)
           | Inr ps \<Rightarrow>
               (let ds3 = ds2\<lparr>wiring := ps, next_port := next_port ds2 + length ps\<rparr> in
                case deploy_services caps [0..<length (services ds3)] ds3 of
                  (Inl e, ds4) \<Rightarrow> (Inl e, ds4)
                | (Inr _, ds4) \<Rightarrow> (Inr (), ds4\<lparr>phase := Deployed\<rparr>))))"

text \<open>Modelled from the spec: \<open>deploy()\<close> of a Deployment: a call that fails leaves
  the Deployment torn down before the error is returned.\<close>

definition deploy :: "capabilities \<Rightarrow> deployment_state \<Rightarrow> (error + unit) \<times> deployment_state" where
  "deploy caps ds =
     (case deploy_steps caps ds of
        (Inl e, ds') \<Rightarrow> (Inl e, teardown ds')
      | (Inr u, ds') \<Rightarrow> (Inr u, ds'))"

subsection \<open>\<open>start()\<close>\<close>

text \<open>Modelled from the spec: the Services a Service depends on: the destinations of
  the Connections it is the source of.\<close>

definition dependencies :: "connection list \<Rightarrow> nat \<Rightarrow> nat list" where
  "dependencies cs s =
     concat (map (\<lambda>c. map fst (targets (conn_destination c)))
               (filter (\<lambda>c. fst (conn_source c) = s) cs))"

text \<open>Modelled from the spec: a Service may be launched once every Service it depends
  on is confirmed listening.\<close>

definition ready :: "connection list \<Rightarrow> nat list \<Rightarrow> nat \<Rightarrow> bool" where
  "ready cs listening s = (\<forall>t \<in> set (dependencies cs s). t \<in> set listening)"

text \<open>Modelled from the spec: the global start order is a topological sort of the
  Connection graph, destinations before sources: the next Service launched is the first
  pending one that is ready. When no pending Service is ready the remaining ones lie on
  a cycle; cycles are legal, and the remaining Services are started in registration
  order (their listening sockets are bound before any of them connects).\<close>

function launch_order :: "connection list \<Rightarrow> nat list \<Rightarrow> nat list \<Rightarrow> nat list" where
  "launch_order cs pending launched =
     (case find (ready cs launched) pending of
        None \<Rightarrow> launched @ pending
      | Some s \<Rightarrow> launch_order cs (removeAll s pending) (launched @ [s]))"
  by pat_completeness auto
termination
  by (relation "measure (\<lambda>(cs, pending, launched). length pending)")
     (auto simp: find_Some_iff intro!: length_removeAll_less)

declare launch_order.simps [simp del]

text \<open>Modelled from the spec: the start order of a Deployment, over all its
  Services.\<close>

definition start_order :: "deployment_state \<Rightarrow> nat list" where
  "start_order ds = launch_order (connections ds) [0..<length (services ds)] []"

text \<open>Modelled from the spec: the launches are issued in the start order; each launch is
  followed by the confirmation that the Service listens, before the next launch is
  issued. A Service that crashes during startup fails the barrier: nothing more is
  launched.\<close>

fun run_launches :: "(nat \<Rightarrow> bool) \<Rightarrow> nat list \<Rightarrow> event list \<times> bool" where
  "run_launches ok [] = ([], True)"
| "run_launches ok (s # ss) =
     (if ok s then
        (case run_launches ok ss of (es, r) \<Rightarrow> (Launch s # Listening s # es, r))
      else ([Launch s, Crashed s], False))"

text \<open>Modelled from the spec: the state of a Service after the events of a startup:
  failed if it crashed, running if it is confirmed listening.\<close>

definition after_events :: "event list \<Rightarrow> nat \<times> service \<Rightarrow> service" where
  "after_events es p =
     (case p of (s, sv) \<Rightarrow>
        if Crashed s \<in> set es then sv\<lparr>svc_state := Failed\<rparr>
        else if Listening s \<in> set es then sv\<lparr>svc_state := Running\<rparr>
        else sv)"

text \<open>Modelled from the spec: \<open>start()\<close> of a Deployment, legal in the Deployed phase
  only. A failure during startup is a \<open>ProcessCrash\<close> and tears everything down.\<close>

definition start :: "capabilities \<Rightarrow> deployment_state \<Rightarrow> (error + unit) \<times> deployment_state" where
  "start caps ds =
     (if phase ds \<noteq> Deployed then (Inl DeclarationError, ds)
      else case run_launches (launch_cap caps) (start_order ds) of
        (es, ok) \<Rightarrow>
          (let ds' = ds\<lparr>events := events ds @ es,
                        services := map (after_events es) (enumerate 0 (services ds))\<rparr>
           in if ok then (Inr (), ds'\<lparr>phase := Started\<rparr>)
              else (Inl ProcessCrash, teardown ds')))"

subsection \<open>The engine as the extension module\<close>

text \<open>Modelled from the spec: the engine holds every Deployment that was created; a
  deployment handle is its index, a host or service handle is the deployment's index
  with the index of the Host or Service in it. An operation on a handle of no
  Deployment is a usage error.\<close>

type_synonym engine_state = "deployment_state list"

text \<open>Modelled from the spec: an operation of one Deployment, applied to the Deployment
  of a handle inside the engine; the other Deployments are untouched.\<close>

definition on_deployment ::
  "nat \<Rightarrow> (deployment_state \<Rightarrow> (error + 'a) \<times> deployment_state) \<Rightarrow> ('a, engine_state) call" where
  "on_deployment d f w =
     (if d < length w then (case f (w ! d) of (r, ds') \<Rightarrow> (r, w[d := ds']))
      else (Inl DeclarationError, w))"

text \<open>Modelled from the spec: \<open>create_Deployment\<close> adds an Empty Deployment.\<close>

definition engine_create_Deployment :: "(nat, engine_state) call" where
  "engine_create_Deployment w = (Inr (length w), w @ [empty_deployment])"

text \<open>Modelled from the spec: \<open>create_LocalhostHost\<close> registers a local Host with the
  Deployment.\<close>

definition engine_create_LocalhostHost :: "nat \<Rightarrow> (nat \<times> nat, engine_state) call" where
  "engine_create_LocalhostHost d w = returning (Pair d) (on_deployment d (register_host Local) w)"

text \<open>Modelled from the spec: \<open>create_HydroflowCrate\<close> registers a Service with the
  Deployment, on a Host that the same Deployment owns.\<close>

definition engine_create_HydroflowCrate ::
  "string \<Rightarrow> nat \<times> nat \<Rightarrow> nat \<Rightarrow> (nat \<times> nat, engine_state) call" where
  "engine_create_HydroflowCrate src h d w =
     (if fst h \<noteq> d then (Inl DeclarationError, w)
      else returning (Pair d) (on_deployment d (register_service src (snd h)) w))"

text \<open>Modelled from the spec: \<open>create_connection\<close> declares a Connection from a source
  Port to a plain destination Port; both Ports belong to Services of one
  Deployment.\<close>

definition engine_create_connection ::
  "nat \<times> nat \<Rightarrow> string \<Rightarrow> nat \<times> nat \<Rightarrow> string \<Rightarrow> (unit, engine_state) call" where
  "engine_create_connection s1 n1 s2 n2 w =
     (if fst s1 \<noteq> fst s2 then (Inl DeclarationError, w)
      else on_deployment (fst s1)
             (connect \<lparr>conn_source = (snd s1, n1), conn_destination = Plain (snd s2, n2)\<rparr>) w)"

text \<open>Modelled from the spec: the engine, as the functions the Python layer calls.\<close>

definition engine ::
  "capabilities \<Rightarrow> (engine_state, nat, nat \<times> nat, nat \<times> nat, handle) hydro_cli_rust" where
  "engine caps =
     \<lparr>create_Deployment = engine_create_Deployment,
      create_LocalhostHost = engine_create_LocalhostHost,
      create_HydroflowCrate = engine_create_HydroflowCrate,
      create_connection = engine_create_connection,
      deployment_deploy = (\<lambda>d. on_deployment d (deploy caps)),
      host_provision = (\<lambda>h. on_deployment (fst h) (provision_host caps (snd h))),
      service_deploy = (\<lambda>s. on_deployment (fst s) (deploy_service caps (snd s)))\<rparr>"

subsection \<open>Clients\<close>

text \<open>
  A client of the Python module makes calls one after another. \<open>perform\<close> is one
  call, of any method of the module on any arguments; what the call returns or raises
  is dropped, its effect on the engine is kept.
\<close>

datatype ('d, 'h, 's) api_call =
    NewDeployment
  | NewLocalhost "'d Deployment"
  | NewHydroflowCrate "'d Deployment" string "'h Host"
  | SendTo "'s HydroflowPort" "'s HydroflowPort"
  | DeployAll "'d Deployment"
  | Provision "'h Host"
  | DeployOne "'s Service"

fun perform :: "('st, 'd, 'h, 's, 'p) hydro_cli_rust \<Rightarrow> ('d, 'h, 's) api_call \<Rightarrow> 'st \<Rightarrow> 'st" where
  "perform R NewDeployment st = snd (Deployment_init R st)"
| "perform R (NewLocalhost d) st = snd (Deployment_Localhost R d st)"
| "perform R (NewHydroflowCrate d src on) st = snd (Deployment_HydroflowCrate R d src on st)"
| "perform R (SendTo p q) st = snd (HydroflowPort_send_to R p q st)"
| "perform R (DeployAll d) st = snd (Deployment_deploy R d st)"
| "perform R (Provision h) st = snd (Host_provision R h st)"
| "perform R (DeployOne s) st = snd (Service_deploy R s st)"

section \<open>Properties of the Python layer\<close>

lemma object_getattribute_underlying:
  "object_getattribute self ''underlying'' = Inr (ports_underlying self)"
  by (simp add: object_getattribute_def instance_dict_def)

lemma getattribute_underlying:
  "HydroflowCratePorts_getattribute self ''underlying'' = Inr (Underlying (ports_underlying self))"
  by (simp add: HydroflowCratePorts_getattribute_def object_getattribute_underlying)

lemma getattribute_other:
  "name \<noteq> ''underlying'' \<Longrightarrow>
   HydroflowCratePorts_getattribute self name =
     Inr (Port (HydroflowPort (ports_underlying self) name))"
  by (simp add: HydroflowCratePorts_getattribute_def object_getattribute_underlying)

lemma returning_id: "returning (\<lambda>_. ()) m = m"
  by (cases m) (auto simp: returning_def split: sum.splits)

subsection \<open>Port access\<close>

text \<open>
  C10. Attribute access on a \<open>HydroflowCratePorts\<close> object never raises, for any
  attribute name: the name \<open>underlying\<close> yields the stored handle, every other name
  (whether or not the crate has such a port) yields a new \<open>HydroflowPort\<close> built from
  the stored handle and the name. So no access ever yields a port named
  \<open>underlying\<close>.
\<close>

theorem getattribute_total:
  "HydroflowCratePorts_getattribute self n =
     Inr (if n = ''underlying'' then Underlying (ports_underlying self)
          else Port (HydroflowPort (ports_underlying self) n))
   \<and> HydroflowCratePorts_getattribute self n \<noteq> Inr (Port (HydroflowPort u ''underlying''))"
  by (simp add: getattribute_underlying getattribute_other)

text \<open>
  C8. For a service \<open>s\<close> and a port name \<open>n\<close> other than \<open>underlying\<close>, the port
  \<open>s.ports.n\<close> carries the handle of \<open>s\<close> and the name \<open>n\<close>. Two accesses give equal
  (handle, name) pairs, and accesses on services \<open>s\<close> and \<open>s'\<close> under names \<open>n\<close> and
  \<open>n'\<close> give the same port exactly when the handles and the names agree.
\<close>

theorem port_identity:
  assumes "n \<noteq> ''underlying''" and "n' \<noteq> ''underlying''"
  shows "(\<exists>p. port_access s n = Inr (Port p)
              \<and> port_underlying p = service_underlying s \<and> port_name p = n)
       \<and> ((port_access s n = port_access s' n') =
            (service_underlying s = service_underlying s' \<and> n = n'))"
  using assms by (simp add: port_access_def HydroflowCrate_ports_def getattribute_other)

theorem port_identity_witness:
  "(\<exists>p. port_access (Service (1::nat)) ''broadcast'' = Inr (Port p)
        \<and> port_underlying p = 1 \<and> port_name p = ''broadcast'')
   \<and> port_access (Service (1::nat)) ''broadcast'' \<noteq> port_access (Service 2) ''broadcast''
   \<and> port_access (Service (1::nat)) ''broadcast'' \<noteq> port_access (Service 1) ''p1b''"
  using port_identity [of "''broadcast''" "''broadcast''" "Service (1::nat)" "Service 2"]
        port_identity [of "''broadcast''" "''p1b''" "Service (1::nat)" "Service 1"]
  by simp

text \<open>
  C1, as the code has it. A service is built from a source path, a host and a
  deployment only: it has no list of declared ports, and \<open>s.ports.n\<close> raises nothing.
  For every name \<open>n\<close> other than \<open>underlying\<close> the access does not fail with
  \<open>DeclarationError\<close>; it creates the port of \<open>s\<close> named \<open>n\<close> on the spot.
\<close>

theorem undeclared_port_is_created:
  "n \<noteq> ''underlying'' \<Longrightarrow>
   port_access s n \<noteq> Inl DeclarationError
   \<and> port_access s n = Inr (Port (HydroflowPort (service_underlying s) n))"
  by (simp add: port_access_def HydroflowCrate_ports_def getattribute_other)

theorem undeclared_port_is_created_witness:
  "''p1b'' \<noteq> ''underlying''
   \<and> port_access (Service (3::nat)) ''p1b'' \<noteq> Inl DeclarationError
   \<and> port_access (Service (3::nat)) ''p1b'' = Inr (Port (HydroflowPort 3 ''p1b''))"
  using undeclared_port_is_created [of "''p1b''" "Service (3::nat)"] by simp

text \<open>
  C1, as the specification words it, fails: the crate below was given no port at
  all, and the access to its port \<open>broadcast\<close> returns a port instead of failing with
  \<open>DeclarationError\<close>.
\<close>

theorem undeclared_port_counterexample:
  "port_access (Service_init (0::nat)) ''broadcast'' = Inr (Port (HydroflowPort 0 ''broadcast''))
   \<and> port_access (Service_init (0::nat)) ''broadcast'' \<noteq> Inl DeclarationError"
  by (simp add: port_access_def HydroflowCrate_ports_def Service_init_def getattribute_other)

subsection \<open>Construction\<close>

text \<open>
  C9. \<open>d.Localhost()\<close> calls the extension's host constructor on the handle of \<open>d\<close>,
  the deployment the method was called on: when that call returns a handle \<open>h\<close>, the
  method returns the host object holding \<open>h\<close>, and when it raises, the method raises
  the same error. \<open>d.HydroflowCrate(src, on)\<close> calls the extension's crate constructor
  on \<open>src\<close>, the handle of the host \<open>on\<close> and the handle of \<open>d\<close>: when that call
  returns a handle \<open>s\<close>, the method returns the service object holding \<open>s\<close>, and
  when it raises, the method raises the same error. In both cases the engine state is
  the one the constructor left.
\<close>

theorem deployment_passed_explicitly:
  "(create_LocalhostHost R (deployment_underlying d) st = (Inr h, st1)
      \<longrightarrow> Deployment_Localhost R d st = (Inr (Host h), st1))
   \<and> (create_LocalhostHost R (deployment_underlying d) st = (Inl e, st1)
      \<longrightarrow> Deployment_Localhost R d st = (Inl e, st1))
   \<and> (create_HydroflowCrate R src (host_underlying on) (deployment_underlying d) st = (Inr s, st2)
      \<longrightarrow> Deployment_HydroflowCrate R d src on st = (Inr (Service s), st2))
   \<and> (create_HydroflowCrate R src (host_underlying on) (deployment_underlying d) st = (Inl e, st2)
      \<longrightarrow> Deployment_HydroflowCrate R d src on st = (Inl e, st2))"
  by (simp add: Deployment_Localhost_def Localhost_init_def Host_init_def
      Deployment_HydroflowCrate_def HydroflowCrate_init_def Service_init_def returning_def)

theorem deployment_passed_explicitly_witness:
  "(let R = \<lparr>create_Deployment = (\<lambda>st. (Inr (length st), st @ [''deployment''])),
             create_LocalhostHost =
               (\<lambda>d st. if d < length st then (Inr (d + 10), st @ [''host''])
                       else (Inl DeclarationError, st)),
             create_HydroflowCrate =
               (\<lambda>src h d st. if d < length st \<and> h = d + 10 then (Inr (d + 20), st @ [src])
                             else (Inl DeclarationError, st)),
             create_connection = (\<lambda>s1 n1 s2 n2 st. (Inr (), st)),
             deployment_deploy = (\<lambda>d st. (Inr (), st)),
             host_provision = (\<lambda>h st. (Inr h, st)),
             service_deploy = (\<lambda>s st. (Inr (), st))\<rparr>
    in Deployment_Localhost R (Deployment 0) [''deployment'']
         = (Inr (Host 10), [''deployment'', ''host''])
       \<and> Deployment_Localhost R (Deployment 1) [''deployment'']
         = (Inl DeclarationError, [''deployment''])
       \<and> Deployment_HydroflowCrate R (Deployment 0) ''sender'' (Host 10) [''deployment'', ''host'']
         = (Inr (Service 20), [''deployment'', ''host'', ''sender''])
       \<and> Deployment_HydroflowCrate R (Deployment 0) ''sender'' (Host 11) [''deployment'', ''host'']
         = (Inl DeclarationError, [''deployment'', ''host'']))"
proof -
  let ?R = "\<lparr>create_Deployment = (\<lambda>st. (Inr (length st), st @ [''deployment''])),
             create_LocalhostHost =
               (\<lambda>d st. if d < length st then (Inr (d + 10), st @ [''host''])
                       else (Inl DeclarationError, st)),
             create_HydroflowCrate =
               (\<lambda>src h d st. if d < length st \<and> h = d + 10 then (Inr (d + 20), st @ [src])
                             else (Inl DeclarationError, st)),
             create_connection = (\<lambda>s1 n1 s2 n2 st. (Inr (), st)),
             deployment_deploy = (\<lambda>d st. (Inr (), st)),
             host_provision = (\<lambda>h st. (Inr h, st)),
             service_deploy = (\<lambda>s st. (Inr (), st))\<rparr>
        :: (string list, nat, nat, nat, nat) hydro_cli_rust"
  have a: "Deployment_Localhost ?R (Deployment 0) [''deployment'']
         = (Inr (Host 10), [''deployment'', ''host''])"
    using deployment_passed_explicitly
      [where R = ?R and d = "Deployment 0" and st = "[''deployment'']" and h = 10
        and ?st1.0 = "[''deployment'', ''host'']"]
    by simp
  have b: "Deployment_Localhost ?R (Deployment 1) [''deployment'']
         = (Inl DeclarationError, [''deployment''])"
    using deployment_passed_explicitly
      [where R = ?R and d = "Deployment 1" and st = "[''deployment'']" and e = DeclarationError
        and ?st1.0 = "[''deployment'']"]
    by simp
  have c: "Deployment_HydroflowCrate ?R (Deployment 0) ''sender'' (Host 10) [''deployment'', ''host'']
         = (Inr (Service 20), [''deployment'', ''host'', ''sender''])"
    using deployment_passed_explicitly
      [where R = ?R and d = "Deployment 0" and st = "[''deployment'', ''host'']" and s = 20
        and src = "''sender''" and on = "Host 10"
        and ?st2.0 = "[''deployment'', ''host'', ''sender'']"]
    by simp
  have d: "Deployment_HydroflowCrate ?R (Deployment 0) ''sender'' (Host 11) [''deployment'', ''host'']
         = (Inl DeclarationError, [''deployment'', ''host''])"
    using deployment_passed_explicitly
      [where R = ?R and d = "Deployment 0" and st = "[''deployment'', ''host'']"
        and e = DeclarationError and src = "''sender''" and on = "Host 11"
        and ?st2.0 = "[''deployment'', ''host'']"]
    by simp
  from a b c d show ?thesis unfolding Let_def by (intro conjI)
qed

section \<open>Properties of the engine\<close>

subsection \<open>Provisioning a host\<close>

lemma provision_host_cached:
  "i < length (hosts ds) \<Longrightarrow> host_state (hosts ds ! i) = HostProvisioned h \<Longrightarrow>
   provision_host caps i ds = (Inr h, ds)"
  by (simp add: provision_host_def)

lemma on_deployment_result:
  "on_deployment d f w = (Inr v, w1) \<Longrightarrow>
   d < length w \<and> (\<exists>ds'. f (w ! d) = (Inr v, ds') \<and> w1 = w[d := ds'])"
  by (auto simp: on_deployment_def split: if_splits prod.splits)



lemma provision_host_success:
  assumes "provision_host caps i ds = (Inr h, ds')"
  shows "i < length (hosts ds') \<and> host_state (hosts ds' ! i) = HostProvisioned h"
proof -
  from assms have i: "i < length (hosts ds)"
    by (cases "i < length (hosts ds)") (simp_all add: provision_host_def)
  show ?thesis
  proof (cases "host_state (hosts ds ! i)")
    case HostDeclared
    with assms i show ?thesis
      by (cases "provision_attempts (provision_cap caps i) (max_attempts caps) 0")
         (auto simp: provision_host_def)
  next
    case (HostProvisioned x)
    with assms i show ?thesis by (auto simp: provision_host_def)
  next
    case HostReleased
    with assms i show ?thesis by (simp add: provision_host_def)
  qed
qed




lemma host_provision_engine:
  "host_provision (engine c) = (\<lambda>h. on_deployment (fst h) (provision_host c (snd h)))"
  by (simp add: engine_def)

lemma Host_provision_engine:
  "Host_provision (engine c) h w =
     on_deployment (fst (host_underlying h)) (provision_host c (snd (host_underlying h))) w"
  by (simp add: Host_provision_def host_provision_engine)

lemma on_deployment_fixed:
  assumes "d < length w" "f ds' = (r, ds')"
  shows "on_deployment d f (w[d := ds']) = (r, w[d := ds'])"
  using assms by (simp add: on_deployment_def)

lemma provision_repeats:
  assumes "Host_provision (engine caps) h w = (Inr x, w1)"
  shows "Host_provision (engine caps') h w1 = (Inr x, w1)"
proof -
  let ?d = "fst (host_underlying h)" and ?i = "snd (host_underlying h)"
  from assms have "on_deployment ?d (provision_host caps ?i) w = (Inr x, w1)"
    by (simp only: Host_provision_engine)
  from on_deployment_result [where f = "provision_host caps ?i", OF this]
  obtain ds' where d: "?d < length w"
    and first: "provision_host caps ?i (w ! ?d) = (Inr x, ds')" and w1: "w1 = w[?d := ds']"
    by auto
  from provision_host_success [OF first]
  have "provision_host caps' ?i ds' = (Inr x, ds')"
    by (simp add: provision_host_cached)
  from on_deployment_fixed [where f = "provision_host caps' ?i", OF d this] show ?thesis
    by (simp only: Host_provision_engine w1)
qed

text \<open>
  C6. A host in the provisioned state answers \<open>provision()\<close> with its cached handle
  and changes nothing. So once a call of \<open>provision()\<close> has returned a handle, a
  second call succeeds with the same handle and changes nothing, whatever the
  provisioning capability would answer now.
\<close>

theorem provision_idempotent:
  "(d < length w \<and> i < length (hosts (w ! d))
      \<and> host_state (hosts (w ! d) ! i) = HostProvisioned x
      \<longrightarrow> Host_provision (engine caps) (Host (d, i)) w = (Inr x, w))
   \<and> (Host_provision (engine caps) h w = (Inr x, w1)
      \<longrightarrow> Host_provision (engine caps') h w1 = (Inr x, w1))"
proof (intro conjI impI)
  assume a: "d < length w \<and> i < length (hosts (w ! d))
      \<and> host_state (hosts (w ! d) ! i) = HostProvisioned x"
  then have "provision_host caps i (w ! d) = (Inr x, w ! d)"
    by (simp add: provision_host_cached)
  with a show "Host_provision (engine caps) (Host (d, i)) w = (Inr x, w)"
    by (simp add: Host_provision_engine on_deployment_def)
next
  assume "Host_provision (engine caps) h w = (Inr x, w1)"
  then show "Host_provision (engine caps') h w1 = (Inr x, w1)"
    by (rule provision_repeats)
qed

theorem provision_idempotent_witness:
  "Host_provision
     (engine \<lparr>provision_cap = (\<lambda>i k. if k = 0 then Inl Transient else Inr 7),
              max_attempts = Suc (Suc 0),
              build_cap = (\<lambda>_. True), place_cap = (\<lambda>_. True), launch_cap = (\<lambda>_. True)\<rparr>)
     (Host (0, 0))
     [empty_deployment\<lparr>hosts := [\<lparr>host_locality = Local, host_state = HostDeclared\<rparr>]\<rparr>]
   = (Inr 7, [empty_deployment\<lparr>hosts := [\<lparr>host_locality = Local, host_state = HostProvisioned 7\<rparr>]\<rparr>])
   \<and> Host_provision
     (engine \<lparr>provision_cap = (\<lambda>i k. Inl Fatal), max_attempts = 0,
              build_cap = (\<lambda>_. False), place_cap = (\<lambda>_. False), launch_cap = (\<lambda>_. False)\<rparr>)
     (Host (0, 0))
     [empty_deployment\<lparr>hosts := [\<lparr>host_locality = Local, host_state = HostProvisioned 7\<rparr>]\<rparr>]
   = (Inr 7, [empty_deployment\<lparr>hosts := [\<lparr>host_locality = Local, host_state = HostProvisioned 7\<rparr>]\<rparr>])"
proof -
  have first: "Host_provision
     (engine \<lparr>provision_cap = (\<lambda>i k. if k = 0 then Inl Transient else Inr 7),
              max_attempts = Suc (Suc 0),
              build_cap = (\<lambda>_. True), place_cap = (\<lambda>_. True), launch_cap = (\<lambda>_. True)\<rparr>)
     (Host (0, 0))
     [empty_deployment\<lparr>hosts := [\<lparr>host_locality = Local, host_state = HostDeclared\<rparr>]\<rparr>]
   = (Inr 7, [empty_deployment\<lparr>hosts := [\<lparr>host_locality = Local, host_state = HostProvisioned 7\<rparr>]\<rparr>])"
    by (simp add: Host_provision_engine on_deployment_def provision_host_def)
  from provision_idempotent [THEN conjunct2, THEN mp, OF first] first show ?thesis
    by (rule_tac conjI)
qed

subsection \<open>Declaration ends at \<open>deploy()\<close>\<close>

lemma deploy_steps_ok_phase:
  assumes "deploy_steps caps ds = (Inr u, ds')"
  shows "phase ds' = Deployed"
proof (cases "declaring ds")
  case False
  with assms show ?thesis by (simp add: deploy_steps_def)
next
  case True
  obtain r1 ds1 where p: "provision_all caps [0..<length (hosts ds)] ds = (r1, ds1)"
    by (cases "provision_all caps [0..<length (hosts ds)] ds")
  show ?thesis
  proof (cases r1)
    case (Inl e)
    with assms True p show ?thesis by (simp add: deploy_steps_def)
  next
    case (Inr a)
    note r1 = this
    let ?ds2 = "ds1\<lparr>phase := Provisioned\<rparr>"
    show ?thesis
    proof (cases "wire_all ?ds2 (connections ds1) (next_port ds1)")
      case (Inl e)
      with assms True p r1 show ?thesis by (simp add: deploy_steps_def Let_def)
    next
      case (Inr ps)
      note ps = this
      let ?ds3 = "?ds2\<lparr>wiring := ps, next_port := next_port ds1 + length ps\<rparr>"
      obtain r4 ds4 where q: "deploy_services caps [0..<length (services ds1)] ?ds3 = (r4, ds4)"
        by (cases "deploy_services caps [0..<length (services ds1)] ?ds3")
      with assms True p r1 ps show ?thesis
        by (cases r4) (auto simp: deploy_steps_def Let_def)
    qed
  qed
qed

lemma deploy_not_declaring:
  assumes "deploy caps ds = (r, ds')"
  shows "\<not> declaring ds'"
proof -
  obtain r0 ds0 where s: "deploy_steps caps ds = (r0, ds0)"
    by (cases "deploy_steps caps ds")
  show ?thesis
  proof (cases r0)
    case (Inl e)
    with assms s have "ds' = teardown ds0" by (simp add: deploy_def)
    then show ?thesis by (simp add: teardown_def declaring_def)
  next
    case (Inr u)
    with assms s have "ds' = ds0" by (simp add: deploy_def)
    with deploy_steps_ok_phase s Inr show ?thesis by (simp add: declaring_def)
  qed
qed

lemma register_host_locked: "\<not> declaring ds \<Longrightarrow> register_host loc ds = (Inl DeclarationError, ds)"
  by (simp add: register_host_def)

lemma register_service_locked:
  "\<not> declaring ds \<Longrightarrow> register_service src h ds = (Inl DeclarationError, ds)"
  by (simp add: register_service_def)

lemma connect_locked: "\<not> declaring ds \<Longrightarrow> connect c ds = (Inl DeclarationError, ds)"
  by (simp add: connect_def)

lemma provision_host_phase: "phase (snd (provision_host caps i ds)) = phase ds"
proof (cases "i < length (hosts ds)")
  case False
  then show ?thesis by (simp add: provision_host_def)
next
  case True
  show ?thesis
  proof (cases "host_state (hosts ds ! i)")
    case HostDeclared
    with True show ?thesis
      by (cases "provision_attempts (provision_cap caps i) (max_attempts caps) 0")
         (simp_all add: provision_host_def)
  qed (use True in \<open>simp_all add: provision_host_def\<close>)
qed

lemma deploy_service_phase: "phase (snd (deploy_service caps s ds)) = phase ds"
proof (cases "s < length (services ds) \<and> svc_state (services ds ! s) = ServiceDeclared
    \<and> svc_host (services ds ! s) < length (hosts ds)")
  case False
  then show ?thesis by (auto simp: deploy_service_def Let_def)
next
  case True
  then show ?thesis
    by (cases "host_state (hosts ds ! svc_host (services ds ! s))")
       (simp_all add: deploy_service_def Let_def)
qed

lemma on_deployment_keeps:
  assumes "d < length w" "\<not> declaring (w ! d)"
    and "\<And>ds. \<not> declaring ds \<Longrightarrow> \<not> declaring (snd (f ds))"
  shows "d < length (snd (on_deployment d' f w)) \<and> \<not> declaring (snd (on_deployment d' f w) ! d)"
proof (cases "d' < length w")
  case False
  with assms show ?thesis by (simp add: on_deployment_def)
next
  case True
  obtain r ds' where f: "f (w ! d') = (r, ds')" by (cases "f (w ! d')")
  from assms(3) [of "w ! d'"] f have "\<not> declaring (w ! d') \<Longrightarrow> \<not> declaring ds'" by simp
  with assms(1,2) True f show ?thesis
    by (cases "d' = d") (simp_all add: on_deployment_def)
qed

lemma snd_returning: "snd (returning g m) = snd m"
  by (cases m) (auto simp: returning_def split: sum.splits)

lemma engine_fields:
  "create_Deployment (engine c) = engine_create_Deployment"
  "create_LocalhostHost (engine c) = engine_create_LocalhostHost"
  "create_HydroflowCrate (engine c) = engine_create_HydroflowCrate"
  "create_connection (engine c) = engine_create_connection"
  "deployment_deploy (engine c) = (\<lambda>d. on_deployment d (deploy c))"
  "service_deploy (engine c) = (\<lambda>s. on_deployment (fst s) (deploy_service c (snd s)))"
  by (simp_all add: engine_def)

lemma perform_keeps:
  assumes "d < length w" "\<not> declaring (w ! d)"
  shows "d < length (perform (engine c) call w) \<and> \<not> declaring (perform (engine c) call w ! d)"
proof (cases call)
  case NewDeployment
  with assms show ?thesis
    by (simp add: Deployment_init_def engine_fields snd_returning engine_create_Deployment_def
        nth_append)
next
  case (NewLocalhost dd)
  have "\<And>ds. \<not> declaring ds \<Longrightarrow> \<not> declaring (snd (register_host Local ds))"
    by (simp add: register_host_locked)
  from on_deployment_keeps [where f = "register_host Local", OF assms this] NewLocalhost
  show ?thesis
    by (simp add: Deployment_Localhost_def Localhost_init_def engine_fields snd_returning
        engine_create_LocalhostHost_def)
next
  case (NewHydroflowCrate dd src on)
  have "\<And>ds. \<not> declaring ds \<Longrightarrow>
      \<not> declaring (snd (register_service src (snd (host_underlying on)) ds))"
    by (simp add: register_service_locked)
  from on_deployment_keeps [where f = "register_service src (snd (host_underlying on))",
      OF assms this] NewHydroflowCrate assms
  show ?thesis
    by (simp add: Deployment_HydroflowCrate_def HydroflowCrate_init_def engine_fields
        snd_returning engine_create_HydroflowCrate_def)
next
  case (SendTo p q)
  let ?c = "\<lparr>conn_source = (snd (port_underlying p), port_name p),
            conn_destination = Plain (snd (port_underlying q), port_name q)\<rparr>"
  have "\<And>ds. \<not> declaring ds \<Longrightarrow> \<not> declaring (snd (connect ?c ds))"
    by (simp add: connect_locked)
  from on_deployment_keeps [where f = "connect ?c", OF assms this] SendTo assms
  show ?thesis
    by (simp add: HydroflowPort_send_to_def engine_fields snd_returning
        engine_create_connection_def)
next
  case (DeployAll dd)
  have "\<And>ds. \<not> declaring ds \<Longrightarrow> \<not> declaring (snd (deploy c ds))"
    using deploy_not_declaring [of c] by (metis prod.collapse)
  from on_deployment_keeps [where f = "deploy c", OF assms this] DeployAll
  show ?thesis
    by (simp add: Deployment_deploy_def engine_fields)
next
  case (Provision h)
  have "\<And>ds. \<not> declaring ds \<Longrightarrow>
      \<not> declaring (snd (provision_host c (snd (host_underlying h)) ds))"
    by (simp add: declaring_def provision_host_phase)
  from on_deployment_keeps [where f = "provision_host c (snd (host_underlying h))",
      OF assms this] Provision
  show ?thesis
    by (simp add: Host_provision_engine)
next
  case (DeployOne s)
  have "\<And>ds. \<not> declaring ds \<Longrightarrow>
      \<not> declaring (snd (deploy_service c (snd (service_underlying s)) ds))"
    by (simp add: declaring_def deploy_service_phase)
  from on_deployment_keeps [where f = "deploy_service c (snd (service_underlying s))",
      OF assms this] DeployOne
  show ?thesis
    by (simp add: Service_deploy_def engine_fields)
qed

lemma fold_perform_keeps:
  "d < length w \<Longrightarrow> \<not> declaring (w ! d) \<Longrightarrow>
   d < length (fold (perform (engine c)) calls w)
   \<and> \<not> declaring (fold (perform (engine c)) calls w ! d)"
proof (induction calls arbitrary: w)
  case Nil
  then show ?case by simp
next
  case (Cons call calls)
  from perform_keeps [OF Cons.prems, of c call] Cons.IH show ?case by simp
qed

lemma send_to_locked:
  assumes "d < length w" "\<not> declaring (w ! d)"
    and "fst (port_underlying p) = d \<or> fst (port_underlying q) = d"
  shows "HydroflowPort_send_to (engine c) p q w = (Inl DeclarationError, w)"
proof (cases "fst (port_underlying p) = fst (port_underlying q)")
  case False
  then show ?thesis
    by (simp add: HydroflowPort_send_to_def engine_fields engine_create_connection_def
        returning_id)
next
  case True
  with assms(3) have "fst (port_underlying p) = d" by auto
  with True assms(1,2) show ?thesis
    by (simp add: HydroflowPort_send_to_def engine_fields engine_create_connection_def
        returning_id on_deployment_def connect_locked)
qed

lemma deploy_locks:
  assumes "Deployment_deploy (engine c) d w = (r, w1)" "deployment_underlying d < length w"
  shows "deployment_underlying d < length w1 \<and> \<not> declaring (w1 ! deployment_underlying d)"
proof -
  obtain r' ds' where s: "deploy c (w ! deployment_underlying d) = (r', ds')"
    by (cases "deploy c (w ! deployment_underlying d)")
  with assms have "w1 = w[deployment_underlying d := ds']"
    by (simp add: Deployment_deploy_def engine_fields on_deployment_def)
  with assms(2) deploy_not_declaring [OF s] show ?thesis by simp
qed

text \<open>
  C2. Once \<open>deploy()\<close> has been invoked on a deployment \<open>d\<close>, whether it succeeded or
  failed, and whatever calls of the module the client made since, \<open>send_to\<close> between
  two ports of which one belongs to a service of \<open>d\<close> fails with \<open>DeclarationError\<close>
  and leaves the whole engine state, so the Connection graph of \<open>d\<close>, as it was.
\<close>

theorem no_connect_after_deploy:
  assumes "Deployment_deploy (engine caps) d w = (r, w1)"
    and "deployment_underlying d < length w"
    and "fst (port_underlying p) = deployment_underlying d
         \<or> fst (port_underlying q) = deployment_underlying d"
    and "w2 = fold (perform (engine caps)) calls w1"
  shows "HydroflowPort_send_to (engine caps) p q w2 = (Inl DeclarationError, w2)"
proof -
  from deploy_locks [OF assms(1,2)]
  have "deployment_underlying d < length w1" "\<not> declaring (w1 ! deployment_underlying d)"
    by simp_all
  from fold_perform_keeps [OF this, of caps calls] assms(4)
  have "deployment_underlying d < length w2" "\<not> declaring (w2 ! deployment_underlying d)"
    by simp_all
  from send_to_locked [OF this assms(3)] show ?thesis .
qed

theorem no_connect_after_deploy_witness:
  "(let C = \<lparr>provision_cap = (\<lambda>i k. Inr (10 + i)), max_attempts = Suc 0,
             build_cap = (\<lambda>_. True), place_cap = (\<lambda>_. True), launch_cap = (\<lambda>_. True)\<rparr>;
        W = [empty_deployment
               \<lparr>hosts := [\<lparr>host_locality = Local, host_state = HostDeclared\<rparr>],
                services := [\<lparr>svc_src = ''sender'', svc_host = 0, svc_state = ServiceDeclared\<rparr>,
                             \<lparr>svc_src = ''receiver'', svc_host = 0, svc_state = ServiceDeclared\<rparr>],
                phase := Declared\<rparr>];
        p = HydroflowPort (0, 0) ''broadcast'';
        q = HydroflowPort (0, Suc 0) ''broadcast'';
        W2 = fold (perform (engine C)) [Provision (Host (0, 0)), SendTo q p]
               (snd (Deployment_deploy (engine C) (Deployment 0) W))
    in fst (HydroflowPort_send_to (engine C) p q W) = Inr ()
       \<and> HydroflowPort_send_to (engine C) p q W2 = (Inl DeclarationError, W2))"
proof -
  let ?C = "\<lparr>provision_cap = (\<lambda>i k. Inr (10 + i)), max_attempts = Suc 0,
             build_cap = (\<lambda>_. True), place_cap = (\<lambda>_. True), launch_cap = (\<lambda>_. True)\<rparr>"
  let ?W = "[empty_deployment
               \<lparr>hosts := [\<lparr>host_locality = Local, host_state = HostDeclared\<rparr>],
                services := [\<lparr>svc_src = ''sender'', svc_host = 0, svc_state = ServiceDeclared\<rparr>,
                             \<lparr>svc_src = ''receiver'', svc_host = 0, svc_state = ServiceDeclared\<rparr>],
                phase := Declared\<rparr>]"
  let ?p = "HydroflowPort (0::nat, 0::nat) ''broadcast''"
  let ?q = "HydroflowPort (0::nat, Suc 0) ''broadcast''"
  let ?D = "Deployment_deploy (engine ?C) (Deployment 0) ?W"
  let ?W2 = "fold (perform (engine ?C)) [Provision (Host (0, 0)), SendTo ?q ?p] (snd ?D)"
  have before: "fst (HydroflowPort_send_to (engine ?C) ?p ?q ?W) = Inr ()"
    by (simp add: HydroflowPort_send_to_def engine_fields engine_create_connection_def
        returning_id on_deployment_def connect_def declaring_def dangling_def
        duplicate_target_def demux_conflict_def targets_def empty_deployment_def)
  have "?D = (fst ?D, snd ?D)" by simp
  from no_connect_after_deploy [OF this, of ?p ?q ?W2 "[Provision (Host (0, 0)), SendTo ?q ?p]"]
  have "HydroflowPort_send_to (engine ?C) ?p ?q ?W2 = (Inl DeclarationError, ?W2)"
    by simp
  with before show ?thesis unfolding Let_def by (rule conjI)
qed

subsection \<open>Declaring a Connection\<close>

lemma connect_success:
  assumes "connect c ds = (Inr u, ds')"
  shows "ds' = ds\<lparr>connections := connections ds @ [c], phase := Declared\<rparr>"
proof (cases "declaring ds \<and> \<not> (dangling ds c \<or> duplicate_target ds c \<or> demux_conflict ds c)")
  case True
  with assms show ?thesis by (simp add: connect_def)
next
  case False
  with assms show ?thesis by (auto simp: connect_def split: if_splits)
qed

lemma send_to_engine_success:
  assumes "HydroflowPort_send_to (engine caps) p q w = (Inr (), w1)"
    and "d = fst (port_underlying p)"
    and "c = \<lparr>conn_source = (snd (port_underlying p), port_name p),
              conn_destination = Plain (snd (port_underlying q), port_name q)\<rparr>"
  shows "connections (w1 ! d) = connections (w ! d) @ [c]
    \<and> length w1 = length w \<and> (\<forall>d'. d' \<noteq> d \<longrightarrow> w1 ! d' = w ! d')"
proof -
  from assms(1) have e: "engine_create_connection (port_underlying p) (port_name p)
      (port_underlying q) (port_name q) w = (Inr (), w1)"
    by (simp add: HydroflowPort_send_to_def returning_id engine_fields)
  then have same: "fst (port_underlying p) = fst (port_underlying q)"
    by (cases "fst (port_underlying p) = fst (port_underlying q)")
       (simp_all add: engine_create_connection_def)
  with e assms(2,3) have "on_deployment d (connect c) w = (Inr (), w1)"
    by (simp add: engine_create_connection_def)
  from on_deployment_result [where f = "connect c", OF this]
  obtain ds' where d: "d < length w" and cn: "connect c (w ! d) = (Inr (), ds')"
    and w1: "w1 = w[d := ds']"
    by auto
  from connect_success [OF cn] d w1 show ?thesis by simp
qed

text \<open>
  C7. \<open>p.send_to(q)\<close> is exactly one call of \<open>create_connection\<close>, with the handle and
  name of \<open>p\<close> as the source and the handle and name of \<open>q\<close> as the destination,
  whatever the extension is. With the engine as the extension, a call that succeeds
  adds to the Connection graph of the deployment of \<open>p\<close> exactly one Connection, from
  the port of \<open>p\<close> to the plain port of \<open>q\<close>, and changes no other deployment.
\<close>

theorem send_to_orientation:
  "HydroflowPort_send_to R p q st =
     create_connection R (port_underlying p) (port_name p) (port_underlying q) (port_name q) st
   \<and> (HydroflowPort_send_to (engine caps) p' q' w = (Inr (), w1) \<longrightarrow>
        connections (w1 ! fst (port_underlying p')) =
          connections (w ! fst (port_underlying p'))
            @ [\<lparr>conn_source = (snd (port_underlying p'), port_name p'),
                conn_destination = Plain (snd (port_underlying q'), port_name q')\<rparr>]
        \<and> length w1 = length w
        \<and> (\<forall>d'. d' \<noteq> fst (port_underlying p') \<longrightarrow> w1 ! d' = w ! d'))"
  using send_to_engine_success [of caps p' q' w w1, OF _ refl refl]
  by (simp add: HydroflowPort_send_to_def returning_id)

theorem send_to_orientation_witness:
  "(let C = \<lparr>provision_cap = (\<lambda>i k. Inr (10 + i)), max_attempts = Suc 0,
             build_cap = (\<lambda>_. True), place_cap = (\<lambda>_. True), launch_cap = (\<lambda>_. True)\<rparr>;
        W = [empty_deployment
               \<lparr>hosts := [\<lparr>host_locality = Local, host_state = HostDeclared\<rparr>],
                services := [\<lparr>svc_src = ''sender'', svc_host = 0, svc_state = ServiceDeclared\<rparr>,
                             \<lparr>svc_src = ''receiver'', svc_host = 0, svc_state = ServiceDeclared\<rparr>],
                phase := Declared\<rparr>];
        p = HydroflowPort (0, 0) ''broadcast'';
        q = HydroflowPort (0, Suc 0) ''broadcast''
    in fst (HydroflowPort_send_to (engine C) p q W) = Inr ()
       \<and> connections (snd (HydroflowPort_send_to (engine C) p q W) ! 0) =
           [\<lparr>conn_source = (0, ''broadcast''), conn_destination = Plain (Suc 0, ''broadcast'')\<rparr>])"
proof -
  let ?C = "\<lparr>provision_cap = (\<lambda>i k. Inr (10 + i)), max_attempts = Suc 0,
             build_cap = (\<lambda>_. True), place_cap = (\<lambda>_. True), launch_cap = (\<lambda>_. True)\<rparr>"
  let ?W = "[empty_deployment
               \<lparr>hosts := [\<lparr>host_locality = Local, host_state = HostDeclared\<rparr>],
                services := [\<lparr>svc_src = ''sender'', svc_host = 0, svc_state = ServiceDeclared\<rparr>,
                             \<lparr>svc_src = ''receiver'', svc_host = 0, svc_state = ServiceDeclared\<rparr>],
                phase := Declared\<rparr>]"
  let ?p = "HydroflowPort (0::nat, 0::nat) ''broadcast''"
  let ?q = "HydroflowPort (0::nat, Suc 0) ''broadcast''"
  let ?S = "HydroflowPort_send_to (engine ?C) ?p ?q ?W"
  have ok: "fst ?S = Inr ()"
    by (simp add: HydroflowPort_send_to_def engine_fields engine_create_connection_def
        returning_id on_deployment_def connect_def declaring_def dangling_def
        duplicate_target_def demux_conflict_def targets_def empty_deployment_def)
  then have eq: "?S = (Inr (), snd ?S)" by (metis prod.collapse)
  note r = send_to_orientation [of "engine ?C" ?p ?q ?W ?C ?p ?q ?W "snd ?S",
      THEN conjunct2, THEN mp, OF eq, THEN conjunct1]
  from r have "connections (snd ?S ! 0) = connections (?W ! 0)
      @ [\<lparr>conn_source = (0, ''broadcast''), conn_destination = Plain (Suc 0, ''broadcast'')\<rparr>]"
    by simp
  then have "connections (snd ?S ! 0) =
      [\<lparr>conn_source = (0, ''broadcast''), conn_destination = Plain (Suc 0, ''broadcast'')\<rparr>]"
    by (simp add: empty_deployment_def)
  with ok show ?thesis unfolding Let_def by (intro conjI)
qed

subsection \<open>A failed \<open>deploy()\<close> releases what it provisioned\<close>

lemma provision_host_keeps:
  assumes "provision_host caps i ds = (r, ds')"
  shows "length (hosts ds') = length (hosts ds)
    \<and> (\<forall>j x. j < length (hosts ds) \<and> host_state (hosts ds ! j) = HostProvisioned x
          \<longrightarrow> host_state (hosts ds' ! j) = HostProvisioned x)"
proof (cases "i < length (hosts ds)")
  case False
  with assms show ?thesis by (simp add: provision_host_def)
next
  case True
  show ?thesis
  proof (cases "host_state (hosts ds ! i)")
    case HostDeclared
    show ?thesis
    proof (cases "provision_attempts (provision_cap caps i) (max_attempts caps) 0")
      case (Inl e)
      with assms True HostDeclared show ?thesis by (simp add: provision_host_def)
    next
      case (Inr h)
      with assms True HostDeclared
      have "ds' = ds\<lparr>hosts := (hosts ds)[i := (hosts ds ! i)\<lparr>host_state := HostProvisioned h\<rparr>]\<rparr>"
        by (simp add: provision_host_def)
      with HostDeclared True show ?thesis by (auto simp: nth_list_update)
    qed
  next
    case (HostProvisioned x)
    with assms True show ?thesis by (simp add: provision_host_def)
  next
    case HostReleased
    with assms True show ?thesis by (simp add: provision_host_def)
  qed
qed

lemma provision_all_keeps:
  "provision_all caps is ds = (r, ds') \<Longrightarrow>
   length (hosts ds') = length (hosts ds)
    \<and> (\<forall>j x. j < length (hosts ds) \<and> host_state (hosts ds ! j) = HostProvisioned x
          \<longrightarrow> host_state (hosts ds' ! j) = HostProvisioned x)"
proof (induction "is" arbitrary: ds)
  case Nil
  then show ?case by simp
next
  case (Cons i "is")
  obtain r1 ds1 where s: "provision_host caps i ds = (r1, ds1)"
    by (cases "provision_host caps i ds")
  note k = provision_host_keeps [OF s]
  show ?case
  proof (cases r1)
    case (Inl e)
    with Cons.prems s have "ds' = ds1" by simp
    with k show ?thesis by simp
  next
    case (Inr a)
    with Cons.prems s have "provision_all caps is ds1 = (r, ds')" by simp
    from Cons.IH [OF this] k show ?thesis by simp
  qed
qed

lemma deploy_service_hosts: "hosts (snd (deploy_service caps s ds)) = hosts ds"
proof (cases "s < length (services ds) \<and> svc_state (services ds ! s) = ServiceDeclared
    \<and> svc_host (services ds ! s) < length (hosts ds)")
  case False
  then show ?thesis by (auto simp: deploy_service_def Let_def)
next
  case True
  then show ?thesis
    by (cases "host_state (hosts ds ! svc_host (services ds ! s))")
       (simp_all add: deploy_service_def Let_def)
qed

lemma deploy_services_hosts: "hosts (snd (deploy_services caps ss ds)) = hosts ds"
proof (induction ss arbitrary: ds)
  case Nil
  then show ?case by simp
next
  case (Cons s ss)
  obtain r1 ds1 where s: "deploy_service caps s ds = (r1, ds1)"
    by (cases "deploy_service caps s ds")
  with deploy_service_hosts [of caps s ds] have h: "hosts ds1 = hosts ds" by simp
  from s h Cons.IH [of ds1] show ?case by (cases r1) simp_all
qed

lemma deploy_steps_keeps:
  assumes "deploy_steps caps ds = (r, ds0)"
  shows "length (hosts ds0) = length (hosts ds)
    \<and> (\<forall>j x. j < length (hosts ds) \<and> host_state (hosts ds ! j) = HostProvisioned x
          \<longrightarrow> host_state (hosts ds0 ! j) = HostProvisioned x)"
proof (cases "declaring ds")
  case False
  with assms show ?thesis by (simp add: deploy_steps_def)
next
  case True
  obtain r1 ds1 where p: "provision_all caps [0..<length (hosts ds)] ds = (r1, ds1)"
    by (cases "provision_all caps [0..<length (hosts ds)] ds")
  note k = provision_all_keeps [OF p]
  show ?thesis
  proof (cases r1)
    case (Inl e)
    with assms True p have "ds0 = ds1" by (simp add: deploy_steps_def)
    with k show ?thesis by simp
  next
    case (Inr a)
    note r1 = this
    let ?ds2 = "ds1\<lparr>phase := Provisioned\<rparr>"
    show ?thesis
    proof (cases "wire_all ?ds2 (connections ds1) (next_port ds1)")
      case (Inl e)
      with assms True p r1 have "ds0 = ?ds2" by (simp add: deploy_steps_def Let_def)
      with k show ?thesis by simp
    next
      case (Inr ps)
      note ps = this
      let ?ds3 = "?ds2\<lparr>wiring := ps, next_port := next_port ds1 + length ps\<rparr>"
      obtain r4 ds4 where q: "deploy_services caps [0..<length (services ds1)] ?ds3 = (r4, ds4)"
        by (cases "deploy_services caps [0..<length (services ds1)] ?ds3")
      with deploy_services_hosts [of caps "[0..<length (services ds1)]" ?ds3]
      have h4: "hosts ds4 = hosts ds1" by simp
      from assms True p r1 ps q have "hosts ds0 = hosts ds4"
        by (cases r4) (auto simp: deploy_steps_def Let_def)
      with h4 k show ?thesis by simp
    qed
  qed
qed

lemma provisioned_handles_mem:
  "j < length hs \<Longrightarrow> host_state (hs ! j) = HostProvisioned x \<Longrightarrow> x \<in> set (provisioned_handles hs)"
proof (induction hs arbitrary: j)
  case Nil
  then show ?case by simp
next
  case (Cons h hs)
  show ?case
  proof (cases j)
    case 0
    with Cons.prems show ?thesis by simp
  next
    case (Suc k)
    with Cons.prems Cons.IH [of k] have "x \<in> set (provisioned_handles hs)" by simp
    then show ?thesis by (cases "host_state h") simp_all
  qed
qed

lemma deploy_failure:
  assumes "deploy caps ds = (Inl e, ds')"
  shows "ds' = teardown (snd (deploy_steps caps ds))"
proof -
  obtain r0 ds0 where s: "deploy_steps caps ds = (r0, ds0)"
    by (cases "deploy_steps caps ds")
  with assms show ?thesis by (cases r0) (simp_all add: deploy_def)
qed

lemma teardown_hosts:
  "hosts (teardown ds) = map (\<lambda>h. h\<lparr>host_state := HostReleased\<rparr>) (hosts ds)"
  "deprovisioned (teardown ds) = deprovisioned ds @ provisioned_handles (hosts ds)"
  by (simp_all add: teardown_def)

text \<open>
  C3. When \<open>deploy()\<close> on a deployment returns an error, the deployment keeps all its
  hosts, every one of them is released, and every host that was provisioned, before
  the call or by the call up to the failure, is released and its handle was passed to
  the deprovisioning capability.
\<close>

theorem failed_deploy_releases_hosts:
  assumes "Deployment_deploy (engine caps) d w = (Inl e, w1)"
    and "deployment_underlying d < length w"
    and "before = w ! deployment_underlying d"
    and "failing = snd (deploy_steps caps before)"
    and "after = w1 ! deployment_underlying d"
  shows "length (hosts after) = length (hosts before)
    \<and> (\<forall>h \<in> set (hosts after). host_state h = HostReleased)
    \<and> (\<forall>j x. j < length (hosts before)
           \<and> (host_state (hosts before ! j) = HostProvisioned x
              \<or> host_state (hosts failing ! j) = HostProvisioned x)
         \<longrightarrow> host_state (hosts after ! j) = HostReleased \<and> x \<in> set (deprovisioned after))"
proof -
  obtain r' ds' where s: "deploy caps before = (r', ds')"
    by (cases "deploy caps before")
  with assms(1,2,3) have "r' = Inl e" and w1: "w1 = w[deployment_underlying d := ds']"
    by (simp_all add: Deployment_deploy_def engine_fields on_deployment_def)
  with s assms(2,5) have "deploy caps before = (Inl e, after)" by simp
  from deploy_failure [OF this] assms(4) have after: "after = teardown failing" by simp
  have "deploy_steps caps before = (fst (deploy_steps caps before), failing)"
    by (simp add: assms(4))
  note k = deploy_steps_keeps [OF this]
  from after k have len: "length (hosts after) = length (hosts before)"
    by (simp add: teardown_hosts)
  from after have released: "\<forall>h \<in> set (hosts after). host_state h = HostReleased"
    by (auto simp: teardown_hosts)
  have "host_state (hosts after ! j) = HostReleased \<and> x \<in> set (deprovisioned after)"
    if j: "j < length (hosts before)"
      and p: "host_state (hosts before ! j) = HostProvisioned x
              \<or> host_state (hosts failing ! j) = HostProvisioned x" for j x
  proof -
    from p k j have "host_state (hosts failing ! j) = HostProvisioned x" by blast
    with j k have "x \<in> set (provisioned_handles (hosts failing))"
      by (simp add: provisioned_handles_mem)
    with after have "x \<in> set (deprovisioned after)" by (simp add: teardown_hosts)
    moreover from j len released have "host_state (hosts after ! j) = HostReleased" by simp
    ultimately show ?thesis by simp
  qed
  with len released show ?thesis by blast
qed

theorem failed_deploy_releases_hosts_witness:
  "(let C = \<lparr>provision_cap = (\<lambda>i k. if i = 0 then Inr 10 else Inl Fatal), max_attempts = Suc 0,
             build_cap = (\<lambda>_. True), place_cap = (\<lambda>_. True), launch_cap = (\<lambda>_. True)\<rparr>;
        W = [empty_deployment
               \<lparr>hosts := [\<lparr>host_locality = Local, host_state = HostDeclared\<rparr>,
                          \<lparr>host_locality = Public, host_state = HostDeclared\<rparr>],
                phase := Declared\<rparr>];
        W1 = snd (Deployment_deploy (engine C) (Deployment 0) W)
    in fst (Deployment_deploy (engine C) (Deployment 0) W) = Inl (ProvisionError Fatal)
       \<and> host_state (hosts (snd (deploy_steps C (W ! 0))) ! 0) = HostProvisioned 10
       \<and> length (hosts (W1 ! 0)) = 2
       \<and> host_state (hosts (W1 ! 0) ! 0) = HostReleased
       \<and> 10 \<in> set (deprovisioned (W1 ! 0)))"
proof -
  let ?C = "\<lparr>provision_cap = (\<lambda>i k. if i = 0 then Inr 10 else Inl Fatal), max_attempts = Suc 0,
             build_cap = (\<lambda>_. True), place_cap = (\<lambda>_. True), launch_cap = (\<lambda>_. True)\<rparr>"
  let ?W = "[empty_deployment
               \<lparr>hosts := [\<lparr>host_locality = Local, host_state = HostDeclared\<rparr>,
                          \<lparr>host_locality = Public, host_state = HostDeclared\<rparr>],
                phase := Declared\<rparr>]"
  let ?D = "Deployment_deploy (engine ?C) (Deployment 0) ?W"
  have steps: "deploy_steps ?C (?W ! 0) =
      (Inl (ProvisionError Fatal),
       empty_deployment
         \<lparr>hosts := [\<lparr>host_locality = Local, host_state = HostProvisioned 10\<rparr>,
                    \<lparr>host_locality = Public, host_state = HostDeclared\<rparr>],
          phase := Declared\<rparr>)"
    by (simp add: deploy_steps_def declaring_def empty_deployment_def provision_host_def)
  then have failed: "fst ?D = Inl (ProvisionError Fatal)"
    by (simp add: Deployment_deploy_def engine_fields on_deployment_def deploy_def)
  then have "?D = (Inl (ProvisionError Fatal), snd ?D)"
    by (metis prod.collapse)
  note t = failed_deploy_releases_hosts [OF this _ refl refl refl]
  have len: "length (hosts (snd ?D ! 0)) = 2"
    using t by (simp add: empty_deployment_def)
  have "\<forall>j x. j < length (hosts (?W ! 0))
           \<and> (host_state (hosts (?W ! 0) ! j) = HostProvisioned x
              \<or> host_state (hosts (snd (deploy_steps ?C (?W ! 0))) ! j) = HostProvisioned x)
         \<longrightarrow> host_state (hosts (snd ?D ! 0) ! j) = HostReleased
             \<and> x \<in> set (deprovisioned (snd ?D ! 0))"
    using t by simp
  from this [rule_format, of 0 10] steps
  have "host_state (hosts (snd ?D ! 0) ! 0) = HostReleased
    \<and> 10 \<in> set (deprovisioned (snd ?D ! 0))"
    by simp
  with failed steps len show ?thesis unfolding Let_def by simp
qed

subsection \<open>Wiring a demux Connection\<close>

lemma wire_one_registered:
  "fst src < length (services ds) \<Longrightarrow> fst dst < length (services ds) \<Longrightarrow>
   \<exists>p. wire_one ds src key dst pn = Inr p"
  by (simp add: wire_one_def service_host_def)

lemma wire_one_fields:
  assumes "wire_one ds src key dst pn = Inr p"
  shows "phys_source p = src \<and> phys_key p = key \<and> phys_target p = dst
    \<and> ep_port (phys_endpoint p) = pn"
proof (cases "service_host ds (fst src)")
  case None
  with assms show ?thesis by (simp add: wire_one_def)
next
  case (Some a)
  with assms show ?thesis
    by (cases "service_host ds (fst dst)") (auto simp: wire_one_def)
qed

lemma wire_demux_registered:
  "fst src < length (services ds) \<Longrightarrow> \<forall>p \<in> set (map snd kvs). fst p < length (services ds) \<Longrightarrow>
   \<exists>ps. wire_demux ds src kvs pn = Inr ps"
proof (induction kvs arbitrary: pn)
  case Nil
  then show ?case by simp
next
  case (Cons kv kvs)
  obtain k dst where kv: "kv = (k, dst)" by (cases kv)
  with Cons.prems obtain p where p: "wire_one ds src (Some k) dst pn = Inr p"
    using wire_one_registered [of src ds dst "Some k" pn] by auto
  from Cons.IH [of "Suc pn"] Cons.prems obtain ps where "wire_demux ds src kvs (Suc pn) = Inr ps"
    by auto
  with p kv show ?case by simp
qed

lemma wire_demux_fields:
  "wire_demux ds src kvs pn = Inr ps \<Longrightarrow>
   map phys_key ps = map (Some \<circ> fst) kvs
   \<and> map phys_target ps = map snd kvs
   \<and> (\<forall>p \<in> set ps. phys_source p = src)
   \<and> (\<forall>p \<in> set ps. pn \<le> ep_port (phys_endpoint p))
   \<and> distinct (map (ep_port \<circ> phys_endpoint) ps)"
proof (induction kvs arbitrary: pn ps)
  case Nil
  then show ?case by simp
next
  case (Cons kv kvs)
  obtain k dst where kv: "kv = (k, dst)" by (cases kv)
  show ?case
  proof (cases "wire_one ds src (Some k) dst pn")
    case (Inl e)
    with Cons.prems kv show ?thesis by simp
  next
    case (Inr p)
    note p = this
    show ?thesis
    proof (cases "wire_demux ds src kvs (Suc pn)")
      case (Inl e)
      with Cons.prems kv p show ?thesis by simp
    next
      case (Inr qs)
      with Cons.prems kv p have ps: "ps = p # qs" by simp
      from Cons.IH [OF Inr] wire_one_fields [OF p] ps kv show ?thesis
        by fastforce
    qed
  qed
qed

text \<open>
  C5. Wiring a demux Connection whose mapping has the (distinct) keys \<open>K\<close>, between
  registered services, succeeds and produces exactly \<open>|K|\<close> physical sub-connections,
  one per key in the order of the mapping, each to the destination port of its key,
  all with the source port of the Connection and with pairwise distinct endpoints; and
  the configuration injected into the source service has an endpoint entry under the
  source port's name for every key of \<open>K\<close>.
\<close>

theorem demux_wiring:
  assumes "conn_destination c = Demux kvs"
    and "distinct (map fst kvs)"
    and "\<not> dangling ds c"
  shows "\<exists>ps. wire_connection ds c pn = Inr ps
    \<and> length ps = card (fst ` set kvs)
    \<and> map phys_key ps = map (Some \<circ> fst) kvs
    \<and> map phys_target ps = map snd kvs
    \<and> (\<forall>p \<in> set ps. phys_source p = conn_source c)
    \<and> distinct (map phys_endpoint ps)
    \<and> (\<forall>k \<in> fst ` set kvs.
          \<exists>e. (snd (conn_source c), Some k, e) \<in> set (source_config ps (fst (conn_source c))))"
proof -
  from assms(1,3) have reg: "fst (conn_source c) < length (services ds)"
    "\<forall>p \<in> set (map snd kvs). fst p < length (services ds)"
    by (simp_all add: dangling_def targets_def)
  from wire_demux_registered [OF reg, of pn]
  obtain ps where ps: "wire_demux ds (conn_source c) kvs pn = Inr ps" by blast
  note f = wire_demux_fields [OF ps]
  from assms(1) ps have w: "wire_connection ds c pn = Inr ps"
    by (simp add: wire_connection_def)
  from f have "length (map phys_key ps) = length (map (Some \<circ> fst) kvs)" by simp
  then have "length ps = length (map fst kvs)" by simp
  also from assms(2) have "\<dots> = card (set (map fst kvs))" by (rule distinct_card [symmetric])
  finally have len: "length ps = card (fst ` set kvs)" by simp
  from f have "distinct (map ep_port (map phys_endpoint ps))" by simp
  then have dist: "distinct (map phys_endpoint ps)"
    using distinct_map [of ep_port "map phys_endpoint ps"] by blast
  have cfg: "\<exists>e. (snd (conn_source c), Some k, e) \<in> set (source_config ps (fst (conn_source c)))"
    if "k \<in> fst ` set kvs" for k
  proof -
    from that have "Some k \<in> set (map (Some \<circ> fst) kvs)" by force
    with f have "Some k \<in> set (map phys_key ps)" by simp
    then obtain p where p: "p \<in> set ps" "phys_key p = Some k" by auto
    with f have "phys_source p = conn_source c" by simp
    with p have "(snd (conn_source c), Some k, phys_endpoint p)
        \<in> set (source_config ps (fst (conn_source c)))"
      by (force simp: source_config_def)
    then show ?thesis ..
  qed
  from w len f dist cfg show ?thesis by blast
qed

theorem demux_wiring_witness:
  "(let DS = empty_deployment
               \<lparr>hosts := [\<lparr>host_locality = Local, host_state = HostDeclared\<rparr>,
                          \<lparr>host_locality = Public, host_state = HostDeclared\<rparr>],
                services := [\<lparr>svc_src = ''sender'', svc_host = 0, svc_state = ServiceDeclared\<rparr>,
                             \<lparr>svc_src = ''receiver'', svc_host = 1, svc_state = ServiceDeclared\<rparr>,
                             \<lparr>svc_src = ''receiver'', svc_host = 1, svc_state = ServiceDeclared\<rparr>,
                             \<lparr>svc_src = ''receiver'', svc_host = 1, svc_state = ServiceDeclared\<rparr>],
                phase := Declared\<rparr>;
        c = \<lparr>conn_source = (0, ''broadcast''),
             conn_destination = Demux [(0, (1, ''broadcast'')), (1, (2, ''broadcast'')),
                                       (2, (3, ''broadcast''))]\<rparr>
    in \<exists>ps. wire_connection DS c 8000 = Inr ps
         \<and> length ps = 3
         \<and> map phys_key ps = [Some 0, Some 1, Some 2]
         \<and> distinct (map phys_endpoint ps)
         \<and> (\<exists>e. (''broadcast'', Some 0, e) \<in> set (source_config ps 0))
         \<and> (\<exists>e. (''broadcast'', Some 1, e) \<in> set (source_config ps 0))
         \<and> (\<exists>e. (''broadcast'', Some 2, e) \<in> set (source_config ps 0)))"
proof -
  let ?DS = "empty_deployment
               \<lparr>hosts := [\<lparr>host_locality = Local, host_state = HostDeclared\<rparr>,
                          \<lparr>host_locality = Public, host_state = HostDeclared\<rparr>],
                services := [\<lparr>svc_src = ''sender'', svc_host = 0, svc_state = ServiceDeclared\<rparr>,
                             \<lparr>svc_src = ''receiver'', svc_host = 1, svc_state = ServiceDeclared\<rparr>,
                             \<lparr>svc_src = ''receiver'', svc_host = 1, svc_state = ServiceDeclared\<rparr>,
                             \<lparr>svc_src = ''receiver'', svc_host = 1, svc_state = ServiceDeclared\<rparr>],
                phase := Declared\<rparr>"
  let ?kvs = "[(0::nat, (1::nat, ''broadcast'')), (1, (2, ''broadcast'')), (2, (3, ''broadcast''))]"
  let ?c = "\<lparr>conn_source = (0::nat, ''broadcast''), conn_destination = Demux ?kvs\<rparr>"
  have h1: "conn_destination ?c = Demux ?kvs" by simp
  have h2: "distinct (map fst ?kvs)" by simp
  have h3: "\<not> dangling ?DS ?c" by (simp add: dangling_def targets_def)
  from demux_wiring [OF h1 h2 h3, of 8000]
  obtain ps where ps: "wire_connection ?DS ?c 8000 = Inr ps"
    "length ps = card (fst ` set ?kvs)"
    "map phys_key ps = map (Some \<circ> fst) ?kvs"
    "distinct (map phys_endpoint ps)"
    "\<forall>k \<in> fst ` set ?kvs.
        \<exists>e. (snd (conn_source ?c), Some k, e) \<in> set (source_config ps (fst (conn_source ?c)))"
    by blast
  from ps(2) have len: "length ps = 3" by simp
  from ps(3) have keys: "map phys_key ps = [Some 0, Some 1, Some 2]" by simp
  from ps(5) have cfg: "\<exists>e. (''broadcast'', Some 0, e) \<in> set (source_config ps 0)"
    "\<exists>e. (''broadcast'', Some 1, e) \<in> set (source_config ps 0)"
    "\<exists>e. (''broadcast'', Some 2, e) \<in> set (source_config ps 0)"
    by simp_all
  from ps(1) len keys ps(4) cfg show ?thesis
    unfolding Let_def by (intro exI [of _ ps] conjI)
qed

subsection \<open>The start order\<close>

lemma exists_ready:
  assumes acyc: "acyclic {(s, t). t \<in> set (dependencies cs s)}"
    and ne: "pending \<noteq> []"
    and closed: "\<And>s t. t \<in> set (dependencies cs s) \<Longrightarrow> t \<in> set pending \<union> set launched"
  shows "\<exists>s \<in> set pending. ready cs launched s"
proof -
  let ?R = "{(t, s). s \<in> set pending \<and> t \<in> set pending \<and> t \<in> set (dependencies cs s)}"
  have "?R \<subseteq> set pending \<times> set pending" by auto
  then have fin: "finite ?R" by (rule finite_subset) simp
  have "?R \<subseteq> {(s, t). t \<in> set (dependencies cs s)}\<inverse>" by auto
  with acyc have "acyclic ?R"
    using acyclic_subset acyclic_converse by blast
  with fin have "wf ?R" by (rule finite_acyclic_wf)
  then have "\<forall>Q x. x \<in> Q \<longrightarrow> (\<exists>z \<in> Q. \<forall>y. (y, z) \<in> ?R \<longrightarrow> y \<notin> Q)"
    by (simp only: wf_eq_minimal)
  moreover from ne obtain x where "x \<in> set pending" by (cases pending) auto
  ultimately obtain z where z: "z \<in> set pending" "\<forall>y. (y, z) \<in> ?R \<longrightarrow> y \<notin> set pending"
    by blast
  have "t \<in> set launched" if t: "t \<in> set (dependencies cs z)" for t
  proof (cases "t \<in> set pending")
    case True
    with z(1) t have "(t, z) \<in> ?R" by simp
    with z(2) True show ?thesis by blast
  next
    case False
    with closed [OF t] show ?thesis by simp
  qed
  then have "ready cs launched z" by (simp add: ready_def)
  with z(1) show ?thesis ..
qed

lemma find_ready_None:
  assumes "acyclic {(s, t). t \<in> set (dependencies cs s)}"
    and "\<And>s t. t \<in> set (dependencies cs s) \<Longrightarrow> t \<in> set pending \<union> set launched"
    and "find (ready cs launched) pending = None"
  shows "pending = []"
proof (rule ccontr)
  assume "pending \<noteq> []"
  from exists_ready [OF assms(1) this assms(2)] assms(3) show False
    by (simp add: find_None_iff)
qed

lemma topological_snoc:
  assumes "\<forall>i < length xs. set (dependencies cs (xs ! i)) \<subseteq> set (take i xs)"
    and "ready cs xs s"
  shows "\<forall>i < length (xs @ [s]). set (dependencies cs ((xs @ [s]) ! i)) \<subseteq> set (take i (xs @ [s]))"
proof (intro allI impI)
  fix i assume "i < length (xs @ [s])"
  then consider "i < length xs" | "i = length xs" by fastforce
  then show "set (dependencies cs ((xs @ [s]) ! i)) \<subseteq> set (take i (xs @ [s]))"
  proof cases
    case 1
    with assms(1) show ?thesis by (simp add: nth_append)
  next
    case 2
    with assms(2) show ?thesis by (auto simp: ready_def)
  qed
qed

lemma launch_order_topological:
  "acyclic {(s, t). t \<in> set (dependencies cs s)} \<Longrightarrow>
   (\<forall>s t. t \<in> set (dependencies cs s) \<longrightarrow> t \<in> set pending \<union> set launched) \<Longrightarrow>
   distinct pending \<Longrightarrow> distinct launched \<Longrightarrow> set pending \<inter> set launched = {} \<Longrightarrow>
   (\<forall>i < length launched. set (dependencies cs (launched ! i)) \<subseteq> set (take i launched)) \<Longrightarrow>
   distinct (launch_order cs pending launched)
   \<and> set (launch_order cs pending launched) = set pending \<union> set launched
   \<and> (\<forall>i < length (launch_order cs pending launched).
         set (dependencies cs (launch_order cs pending launched ! i))
           \<subseteq> set (take i (launch_order cs pending launched)))"
proof (induction cs pending launched rule: launch_order.induct)
  case (1 cs pending launched)
  show ?case
  proof (cases "find (ready cs launched) pending")
    case None
    from "1.prems"(2) have "\<And>s t. t \<in> set (dependencies cs s) \<Longrightarrow> t \<in> set pending \<union> set launched"
      by blast
    from find_ready_None [OF "1.prems"(1) this None] have "pending = []" .
    with None have "launch_order cs pending launched = launched"
      by (simp add: launch_order.simps)
    with \<open>pending = []\<close> "1.prems" show ?thesis by simp
  next
    case (Some s)
    then have s: "s \<in> set pending" "ready cs launched s"
      by (auto simp: find_Some_iff)
    from Some have eq: "launch_order cs pending launched
        = launch_order cs (removeAll s pending) (launched @ [s])"
      by (simp add: launch_order.simps)
    from s(1) have un: "set (removeAll s pending) \<union> set (launched @ [s]) = set pending \<union> set launched"
      by auto
    have p2: "\<forall>s' t. t \<in> set (dependencies cs s')
        \<longrightarrow> t \<in> set (removeAll s pending) \<union> set (launched @ [s])"
      using "1.prems"(2) un by simp
    have p3: "distinct (removeAll s pending)"
      using "1.prems"(3) by (simp add: distinct_removeAll)
    have p4: "distinct (launched @ [s])"
      using "1.prems"(4,5) s(1) by auto
    have p5: "set (removeAll s pending) \<inter> set (launched @ [s]) = {}"
      using "1.prems"(5) by auto
    note p6 = topological_snoc [OF "1.prems"(6) s(2)]
    from "1.IH" [OF Some "1.prems"(1) p2 p3 p4 p5 p6] un eq show ?thesis by simp
  qed
qed

lemma dependencies_registered:
  assumes "\<forall>c \<in> set cs. \<not> dangling ds c" and "t \<in> set (dependencies cs s)"
  shows "t < length (services ds)"
proof -
  from assms(2) obtain c p where "c \<in> set cs" "p \<in> set (targets (conn_destination c))" "t = fst p"
    by (auto simp: dependencies_def)
  with assms(1) show ?thesis by (auto simp: dangling_def)
qed

lemma start_order_topological:
  assumes "acyclic {(s, t). t \<in> set (dependencies (connections ds) s)}"
    and "\<forall>c \<in> set (connections ds). \<not> dangling ds c"
  shows "distinct (start_order ds)"
    and "set (start_order ds) = {0..<length (services ds)}"
    and "\<forall>i < length (start_order ds).
           set (dependencies (connections ds) (start_order ds ! i)) \<subseteq> set (take i (start_order ds))"
proof -
  have "\<forall>s t. t \<in> set (dependencies (connections ds) s)
      \<longrightarrow> t \<in> set [0..<length (services ds)] \<union> set []"
    using dependencies_registered [OF assms(2)] by simp
  from launch_order_topological [OF assms(1) this]
  have "distinct (start_order ds)
    \<and> set (start_order ds) = set [0..<length (services ds)] \<union> set []
    \<and> (\<forall>i < length (start_order ds).
           set (dependencies (connections ds) (start_order ds ! i)) \<subseteq> set (take i (start_order ds)))"
    by (simp add: start_order_def)
  then show "distinct (start_order ds)"
    and "set (start_order ds) = {0..<length (services ds)}"
    and "\<forall>i < length (start_order ds).
           set (dependencies (connections ds) (start_order ds ! i)) \<subseteq> set (take i (start_order ds))"
    by simp_all
qed

lemma run_launches_order:
  "fst (run_launches ok xs) = pre @ Launch s # post \<Longrightarrow>
   \<exists>xs1 xs2. xs = xs1 @ s # xs2 \<and> (\<forall>t \<in> set xs1. Listening t \<in> set pre)"
proof (induction xs arbitrary: pre)
  case Nil
  then show ?case by simp
next
  case (Cons x xs)
  show ?case
  proof (cases "ok x")
    case False
    with Cons.prems have "[Launch x, Crashed x] = pre @ Launch s # post" by simp
    then have "pre = [] \<and> s = x"
      by (cases pre) (auto simp: Cons_eq_append_conv)
    then have "x # xs = [] @ s # xs \<and> (\<forall>t \<in> set []. Listening t \<in> set pre)" by simp
    then show ?thesis by blast
  next
    case True
    obtain es r where rl: "run_launches ok xs = (es, r)" by (cases "run_launches ok xs")
    with True Cons.prems have e: "Launch x # Listening x # es = pre @ Launch s # post" by simp
    show ?thesis
    proof (cases pre)
      case Nil
      with e have "x # xs = [] @ s # xs \<and> (\<forall>t \<in> set []. Listening t \<in> set pre)" by simp
      then show ?thesis by blast
    next
      case (Cons a pre1)
      with e have a: "a = Launch x" and e1: "Listening x # es = pre1 @ Launch s # post" by simp_all
      from e1 obtain pre2 where pre1: "pre1 = Listening x # pre2" and e2: "es = pre2 @ Launch s # post"
        by (cases pre1) auto
      from e2 rl have "fst (run_launches ok xs) = pre2 @ Launch s # post" by simp
      from Cons.IH [OF this] obtain xs1 xs2 where
        split: "xs = xs1 @ s # xs2" and l: "\<forall>t \<in> set xs1. Listening t \<in> set pre2"
        by blast
      from split have "x # xs = (x # xs1) @ s # xs2" by simp
      moreover from l Cons pre1 have "\<forall>t \<in> set (x # xs1). Listening t \<in> set pre" by simp
      ultimately show ?thesis by blast
    qed
  qed
qed

lemma start_events:
  assumes "start caps ds = (r, ds')"
  shows "events ds' = events ds
    @ (if phase ds = Deployed then fst (run_launches (launch_cap caps) (start_order ds)) else [])"
proof (cases "phase ds = Deployed")
  case False
  with assms show ?thesis by (simp add: start_def)
next
  case True
  obtain es ok where rl: "run_launches (launch_cap caps) (start_order ds) = (es, ok)"
    by (cases "run_launches (launch_cap caps) (start_order ds)")
  with assms True show ?thesis
    by (cases ok) (auto simp: start_def Let_def teardown_def)
qed

lemma run_launches_success:
  "run_launches ok xs = (es, True) \<Longrightarrow> es = concat (map (\<lambda>s. [Launch s, Listening s]) xs)"
proof (induction xs arbitrary: es)
  case Nil
  then show ?case by simp
next
  case (Cons x xs)
  obtain es1 r where rl: "run_launches ok xs = (es1, r)" by (cases "run_launches ok xs")
  with Cons.prems have "ok x" and "r" and "es = Launch x # Listening x # es1"
    by (auto split: if_splits)
  with Cons.IH [of es1] rl show ?case by simp
qed

lemma start_success:
  assumes "start caps ds = (Inr u, ds')"
  shows "phase ds = Deployed
    \<and> fst (run_launches (launch_cap caps) (start_order ds))
        = concat (map (\<lambda>s. [Launch s, Listening s]) (start_order ds))"
proof (cases "phase ds = Deployed")
  case False
  with assms show ?thesis by (simp add: start_def)
next
  case True
  obtain es ok where rl: "run_launches (launch_cap caps) (start_order ds) = (es, ok)"
    by (cases "run_launches (launch_cap caps) (start_order ds)")
  with assms True have ok by (cases ok) (auto simp: start_def Let_def)
  with rl run_launches_success [of "launch_cap caps" "start_order ds" es] True
  show ?thesis by simp
qed

text \<open>
  C4. For a Connection graph without cycles, over registered services: in the events
  of \<open>start()\<close> every launch of a service comes after the confirmation that each
  service it depends on (each destination of a Connection it is the source of) is
  listening; when \<open>start()\<close> succeeds the events are the launch and the confirmation
  of each service in the start order; and the start order is a topological sort of
  the graph: it holds every service of the deployment exactly once, and wherever a
  service stands in it, all the services it depends on stand before it.
\<close>

theorem start_launches_after_dependencies:
  assumes "acyclic {(s, t). t \<in> set (dependencies (connections ds) s)}"
    and "\<forall>c \<in> set (connections ds). \<not> dangling ds c"
    and "start caps ds = (r, ds')"
  shows "(\<exists>es. events ds' = events ds @ es
           \<and> (\<forall>pre s post. es = pre @ Launch s # post
                 \<longrightarrow> (\<forall>t \<in> set (dependencies (connections ds) s). Listening t \<in> set pre))
           \<and> (r = Inr () \<longrightarrow> es = concat (map (\<lambda>s. [Launch s, Listening s]) (start_order ds))))
    \<and> distinct (start_order ds)
    \<and> set (start_order ds) = {0..<length (services ds)}
    \<and> (\<forall>xs1 s xs2. start_order ds = xs1 @ s # xs2
          \<longrightarrow> set (dependencies (connections ds) s) \<subseteq> set xs1)"
proof -
  note topo = start_order_topological [OF assms(1,2)]
  have before: "set (dependencies (connections ds) s) \<subseteq> set xs1"
    if "start_order ds = xs1 @ s # xs2" for xs1 s xs2
  proof -
    from that have "length xs1 < length (start_order ds)" "start_order ds ! length xs1 = s"
      "take (length xs1) (start_order ds) = xs1"
      by simp_all
    with topo(3) show ?thesis by metis
  qed
  let ?es = "if phase ds = Deployed
    then fst (run_launches (launch_cap caps) (start_order ds)) else []"
  have safe: "Listening t \<in> set pre"
    if "?es = pre @ Launch s # post" "t \<in> set (dependencies (connections ds) s)" for pre s post t
  proof -
    from that(1) have "fst (run_launches (launch_cap caps) (start_order ds)) = pre @ Launch s # post"
      by (cases "phase ds = Deployed") simp_all
    from run_launches_order [OF this] obtain xs1 xs2 where
      "start_order ds = xs1 @ s # xs2" "\<forall>t \<in> set xs1. Listening t \<in> set pre"
      by blast
    with before that(2) show ?thesis by blast
  qed
  have all: "?es = concat (map (\<lambda>s. [Launch s, Listening s]) (start_order ds))" if "r = Inr ()"
    using start_success [of caps ds "()" ds'] assms(3) that by simp
  from start_events [OF assms(3)] have "events ds' = events ds @ ?es" .
  with safe all have "\<exists>es. events ds' = events ds @ es
           \<and> (\<forall>pre s post. es = pre @ Launch s # post
                 \<longrightarrow> (\<forall>t \<in> set (dependencies (connections ds) s). Listening t \<in> set pre))
           \<and> (r = Inr () \<longrightarrow> es = concat (map (\<lambda>s. [Launch s, Listening s]) (start_order ds)))"
    by (intro exI [of _ ?es]) blast
  with topo(1,2) before show ?thesis by blast
qed

theorem start_launches_after_dependencies_witness:
  "(let C = \<lparr>provision_cap = (\<lambda>i k. Inr i), max_attempts = Suc 0,
             build_cap = (\<lambda>_. True), place_cap = (\<lambda>_. True), launch_cap = (\<lambda>_. True)\<rparr>;
        DS = empty_deployment
               \<lparr>hosts := [\<lparr>host_locality = Local, host_state = HostProvisioned 0\<rparr>],
                services := [\<lparr>svc_src = ''proposer'', svc_host = 0, svc_state = ServiceDeployed\<rparr>,
                             \<lparr>svc_src = ''proxy'', svc_host = 0, svc_state = ServiceDeployed\<rparr>,
                             \<lparr>svc_src = ''acceptor'', svc_host = 0, svc_state = ServiceDeployed\<rparr>],
                connections :=
                  [\<lparr>conn_source = (0, ''p2a''), conn_destination = Plain (Suc 0, ''p2a'')\<rparr>,
                   \<lparr>conn_source = (Suc 0, ''p2a_out''), conn_destination = Plain (Suc (Suc 0), ''p2a'')\<rparr>,
                   \<lparr>conn_source = (0, ''p1a''), conn_destination = Plain (Suc (Suc 0), ''p1a'')\<rparr>],
                phase := Deployed\<rparr>
    in start_order DS = [Suc (Suc 0), Suc 0, 0]
       \<and> distinct (start_order DS)
       \<and> fst (start C DS) = Inr ()
       \<and> events (snd (start C DS)) =
           [Launch (Suc (Suc 0)), Listening (Suc (Suc 0)), Launch (Suc 0), Listening (Suc 0),
            Launch 0, Listening 0])"
proof -
  let ?C = "\<lparr>provision_cap = (\<lambda>i k. Inr i), max_attempts = Suc 0,
             build_cap = (\<lambda>_. True), place_cap = (\<lambda>_. True), launch_cap = (\<lambda>_. True)\<rparr>"
  let ?cs = "[\<lparr>conn_source = (0::nat, ''p2a''), conn_destination = Plain (Suc 0, ''p2a'')\<rparr>,
              \<lparr>conn_source = (Suc 0, ''p2a_out''), conn_destination = Plain (Suc (Suc 0), ''p2a'')\<rparr>,
              \<lparr>conn_source = (0, ''p1a''), conn_destination = Plain (Suc (Suc 0), ''p1a'')\<rparr>]"
  let ?DS = "empty_deployment
               \<lparr>hosts := [\<lparr>host_locality = Local, host_state = HostProvisioned 0\<rparr>],
                services := [\<lparr>svc_src = ''proposer'', svc_host = 0, svc_state = ServiceDeployed\<rparr>,
                             \<lparr>svc_src = ''proxy'', svc_host = 0, svc_state = ServiceDeployed\<rparr>,
                             \<lparr>svc_src = ''acceptor'', svc_host = 0, svc_state = ServiceDeployed\<rparr>],
                connections := ?cs,
                phase := Deployed\<rparr>"
  have cs: "connections ?DS = ?cs" by simp
  have "\<And>a b. (a, b) \<in> {(s, t). t \<in> set (dependencies ?cs s)} \<Longrightarrow> (3::nat) - b < 3 - a"
    by (auto simp: dependencies_def targets_def split: if_splits)
  then have "acyclic {(s, t). t \<in> set (dependencies ?cs s)}"
    by (rule acyclicI_order)
  then have h1: "acyclic {(s, t). t \<in> set (dependencies (connections ?DS) s)}"
    by (simp only: cs)
  have h2: "\<forall>c \<in> set (connections ?DS). \<not> dangling ?DS c"
    by (auto simp: dangling_def targets_def)
  have order: "start_order ?DS = [Suc (Suc 0), Suc 0, 0]"
    by (auto simp: start_order_def launch_order.simps ready_def dependencies_def targets_def)
  have run: "start ?C ?DS =
      (fst (start ?C ?DS), snd (start ?C ?DS))" by simp
  note t = start_launches_after_dependencies [OF h1 h2 run]
  from t have d: "distinct (start_order ?DS)" by blast
  have e0: "events empty_deployment = []" by (simp add: empty_deployment_def)
  have ok: "fst (start ?C ?DS) = Inr ()"
    by (simp add: start_def Let_def order)
  have ev: "events (snd (start ?C ?DS)) =
           [Launch (Suc (Suc 0)), Listening (Suc (Suc 0)), Launch (Suc 0), Listening (Suc 0),
            Launch 0, Listening 0]"
    by (simp add: start_def Let_def order e0)
  from order d ok ev show ?thesis unfolding Let_def by (intro conjI)
qed

end
